theory Spec2Isabelle
  imports Complex_Main "HOL-Library.Multiset"
begin

section \<open>Data model (fem\_matrix.h)\<close>

text \<open>
  The C sources work on \<^verbatim>\<open>double\<close> arrays and \<^verbatim>\<open>int\<close> indices.  In this
  development a \<^verbatim>\<open>double\<close> is a real number (exact arithmetic, where \<open>x / 0 = 0\<close>)
  and an \<^verbatim>\<open>int\<close> is an integer.  In the two solvers every \<^verbatim>\<open>int\<close> is a counter or an index
  that stays between \<open>0\<close> and a bound the caller passes (\<^verbatim>\<open>iter\<close> up to \<^verbatim>\<open>max_iter\<close>, an
  index up to \<^verbatim>\<open>n\<close>), so no operation on it overflows; \<^verbatim>\<open>create_fem_system\<close> multiplies its
  arguments, and there the 32-bit wrap-around is written out.  In the solvers an array is a
  list that is read with \<open>!\<close> and written with a list update.  Reads and writes outside an
  array are undefined behaviour in C; the theorems about the solvers state the lengths they
  need, and the assembly treats such an access as a fault.  The two solvers are modelled
  twice: on lists, where each array is a value of its own, and on a store of arrays with
  addresses, where two pointers may name the same array; the second model is shown to
  compute what the first computes.

  The field names of the two structs carry a prefix, since \<open>n\<close>, \<open>b\<close>, \<open>x\<close> and \<open>A\<close>
  are needed as variables.
\<close>

record CSRMatrix =
  csr_n :: int
  csr_nnz :: int
  csr_values :: "real list"
  col_idx :: "int list"
  row_ptr :: "int list"

record FEMSystem =
  sys_A :: CSRMatrix
  sys_b :: "real list"
  sys_x :: "real list"
  sys_n :: int

section \<open>Matrix-vector product (fem\_matrix.c)\<close>

text \<open>
  \<^verbatim>\<open>for (i = 0; i < A->n; i++) { y[i] = 0.0;
     for (j = row_ptr[i]; j < row_ptr[i+1]; j++) y[i] += values[j] * x[col_idx[j]]; }\<close>
\<close>

definition matvec_row :: "CSRMatrix \<Rightarrow> real list \<Rightarrow> nat \<Rightarrow> real list \<Rightarrow> real list" where
  "matvec_row A x i y =
     fold (\<lambda>j y. y[i := y ! i + csr_values A ! nat j * x ! nat (col_idx A ! nat j)])
       [row_ptr A ! i .. row_ptr A ! (i + 1) - 1] (y[i := 0])"

definition matvec_csr :: "CSRMatrix \<Rightarrow> real list \<Rightarrow> real list \<Rightarrow> real list" where
  "matvec_csr A x y = fold (matvec_row A x) [0..<nat (csr_n A)] y"

section \<open>Machine integers, arrays and faults\<close>

text \<open>
  \<^verbatim>\<open>create_fem_system\<close> computes sizes and indices from its two arguments, so its \<^verbatim>\<open>int\<close>
  arithmetic is modelled with the width it has: an \<^verbatim>\<open>int\<close> has 32 bits, and the result of
  \<open>+\<close>, \<open>-\<close> and \<open>*\<close> is reduced to the range from \<open>-2147483648\<close> to \<open>2147483647\<close>, which is what the compiled
  code does on overflow (the C standard leaves signed overflow undefined).
\<close>

definition INT_MAX :: int where
  "INT_MAX = 2147483647"

definition wrap_int :: "int \<Rightarrow> int" where
  "wrap_int k = (k + 2147483648) mod 4294967296 - 2147483648"

text \<open>
  The function never tests what \<^verbatim>\<open>calloc\<close> and \<^verbatim>\<open>malloc\<close> return.  An array is therefore
  either \<^verbatim>\<open>NULL\<close> (\<open>None\<close>) or a block of cells, and a read or write through \<^verbatim>\<open>NULL\<close> or
  outside the block is a fault that ends the call.
\<close>

datatype fault = Null_pointer | Out_of_bounds

type_synonym 'a array = "'a list option"

text \<open>
  \<^verbatim>\<open>calloc(cnt, size)\<close> and \<^verbatim>\<open>malloc(cnt * size)\<close> with an \<^verbatim>\<open>int\<close> count \<open>cnt\<close>.  The count is
  converted to \<^verbatim>\<open>size_t\<close>; a negative count becomes a request larger than the address space,
  which no allocator meets, and the result is \<^verbatim>\<open>NULL\<close>.  A request with a count that is not
  negative is taken to succeed: running out of memory is not modelled.  The cells \<^verbatim>\<open>malloc\<close>
  returns hold arbitrary values in C; the function writes each of them before it returns.
\<close>

definition calloc :: "int \<Rightarrow> 'a::zero array" where
  "calloc cnt = (if cnt < 0 then None else Some (replicate (nat cnt) 0))"

definition malloc_cells :: "int \<Rightarrow> 'a::zero array" where
  "malloc_cells cnt = (if cnt < 0 then None else Some (replicate (nat cnt) 0))"

text \<open>\<^verbatim>\<open>a[i]\<close> as a value, and \<^verbatim>\<open>a[i] = v\<close>.\<close>

definition array_get :: "'a array \<Rightarrow> int \<Rightarrow> fault + 'a" where
  "array_get a i =
     (case a of
        None \<Rightarrow> Inl Null_pointer
      | Some xs \<Rightarrow> if 0 \<le> i \<and> i < int (length xs) then Inr (xs ! nat i)
                   else Inl Out_of_bounds)"

definition array_put :: "'a array \<Rightarrow> int \<Rightarrow> 'a \<Rightarrow> fault + 'a array" where
  "array_put a i v =
     (case a of
        None \<Rightarrow> Inl Null_pointer
      | Some xs \<Rightarrow> if 0 \<le> i \<and> i < int (length xs) then Inr (Some (xs[nat i := v]))
                   else Inl Out_of_bounds)"

text \<open>One statement after another: the second runs on the result of the first, unless the
  first faulted.\<close>

definition and_then :: "fault + 'a \<Rightarrow> ('a \<Rightarrow> fault + 'b) \<Rightarrow> fault + 'b" where
  "and_then r f = (case r of Inl e \<Rightarrow> Inl e | Inr a \<Rightarrow> f a)"

text \<open>\<^verbatim>\<open>for (int i = 0; i < bound; i++) body\<close>; the loop ends at the first fault.  The index
  stays below \<open>bound\<close>, so \<^verbatim>\<open>i++\<close> does not overflow.\<close>

primrec for_each :: "'i list \<Rightarrow> ('i \<Rightarrow> 's \<Rightarrow> fault + 's) \<Rightarrow> 's \<Rightarrow> fault + 's" where
  "for_each [] body s = Inr s"
| "for_each (i # is) body s = and_then (body i s) (for_each is body)"

definition for_upto :: "int \<Rightarrow> (int \<Rightarrow> 's \<Rightarrow> fault + 's) \<Rightarrow> 's \<Rightarrow> fault + 's" where
  "for_upto bound body s = for_each (map int [0..<nat bound]) body s"

text \<open>The solvers take the arrays of a system as lists of cells; a \<^verbatim>\<open>NULL\<close> array has no
  cells.\<close>

definition cells_of :: "'a array \<Rightarrow> 'a list" where
  "cells_of a = (case a of None \<Rightarrow> [] | Some xs \<Rightarrow> xs)"

section \<open>Assembly of the system (fem\_matrix.c)\<close>

text \<open>\<^verbatim>\<open>return i * nx + j;\<close>\<close>

definition get_node_number :: "int \<Rightarrow> int \<Rightarrow> int \<Rightarrow> int" where
  "get_node_number i j nx = wrap_int (wrap_int (i * nx) + j)"

definition get_boundary_type :: "int \<Rightarrow> int \<Rightarrow> int \<Rightarrow> int \<Rightarrow> int" where
  "get_boundary_type i j nx ny =
     (if j = 0 then 1
      else if i = wrap_int (ny - 1) then 2
      else if j = wrap_int (nx - 1) then 3
      else if i = 0 then 4
      else 0)"

text \<open>
  The variables of \<^verbatim>\<open>create_fem_system\<close> that its node loop updates: the three
  temporary arrays, the right-hand side and the running count of entries.
\<close>

record assembly =
  temp_values :: "real array"
  temp_col :: "int array"
  temp_row :: "int array"
  rhs_b :: "real array"
  nnz_count :: int

text \<open>\<^verbatim>\<open>temp_values[nnz_count] = v; temp_col[nnz_count] = c; nnz_count++;\<close>\<close>

definition add_entry :: "real \<Rightarrow> int \<Rightarrow> assembly \<Rightarrow> fault + assembly" where
  "add_entry v c st =
     and_then (array_put (temp_values st) (nnz_count st) v) (\<lambda>tv.
     and_then (array_put (temp_col st) (nnz_count st) c) (\<lambda>tc.
     Inr (st\<lparr>temp_values := tv, temp_col := tc, nnz_count := wrap_int (nnz_count st + 1)\<rparr>)))"

text \<open>\<^verbatim>\<open>sys->b[node] = v;\<close> and \<^verbatim>\<open>temp_row[m] = v;\<close>\<close>

definition set_rhs :: "int \<Rightarrow> real \<Rightarrow> assembly \<Rightarrow> fault + assembly" where
  "set_rhs node v st = and_then (array_put (rhs_b st) node v) (\<lambda>b. Inr (st\<lparr>rhs_b := b\<rparr>))"

definition set_row :: "int \<Rightarrow> int \<Rightarrow> assembly \<Rightarrow> fault + assembly" where
  "set_row m v st = and_then (array_put (temp_row st) m v) (\<lambda>tr. Inr (st\<lparr>temp_row := tr\<rparr>))"

text \<open>The body of the node loop, lines 64--126, for the grid position \<open>(i, j)\<close>.\<close>

definition assemble_node ::
  "int \<Rightarrow> int \<Rightarrow> real \<Rightarrow> real \<Rightarrow> real \<Rightarrow> int \<Rightarrow> int \<Rightarrow> assembly \<Rightarrow> fault + assembly" where
  "assemble_node nx ny ke kn kw i j st =
     (let node = get_node_number i j nx;
          boundary = get_boundary_type i j nx ny
      in and_then
           (if boundary > 0
            then and_then (add_entry 1 node st) (\<lambda>st.
                   if boundary = 3 then set_rhs node 1 st else set_rhs node 0 st)
            else and_then (if j > 0
                           then add_entry kw (get_node_number i (wrap_int (j - 1)) nx) st
                           else Inr st) (\<lambda>st.
                 and_then (if i > 0
                           then add_entry kn (get_node_number (wrap_int (i - 1)) j nx) st
                           else Inr st) (\<lambda>st.
                 and_then (add_entry ke node st) (\<lambda>st.
                 and_then (if i < wrap_int (ny - 1)
                           then add_entry kn (get_node_number (wrap_int (i + 1)) j nx) st
                           else Inr st) (\<lambda>st.
                 and_then (if j < wrap_int (nx - 1)
                           then add_entry kw (get_node_number i (wrap_int (j + 1)) nx) st
                           else Inr st) (\<lambda>st.
                 set_rhs node 0 st))))))
           (\<lambda>st. set_row (wrap_int (node + 1)) (nnz_count st) st))"

text \<open>
  \<^verbatim>\<open>create_fem_system\<close>: the sizes \<^verbatim>\<open>sys->n = nx * ny\<close> and \<^verbatim>\<open>max_nnz = 5 * sys->n\<close>, the
  temporary arrays and the two vectors (\<^verbatim>\<open>calloc\<close>, so zeroed), the element coefficients,
  \<^verbatim>\<open>temp_row[0] = 0\<close>, the loop over the nodes row by row, and the two loops that copy into
  arrays of the exact size.  The function returns the system it has built, or stops at a
  fault.  The last copy loop runs while \<^verbatim>\<open>i <= sys->n\<close>.  The two messages, the \<^verbatim>\<open>malloc\<close> of
  the struct itself and the three calls of \<^verbatim>\<open>free\<close> are not modelled.
\<close>

definition create_fem_system :: "int \<Rightarrow> int \<Rightarrow> fault + FEMSystem" where
  "create_fem_system nx ny =
     (let n = wrap_int (nx * ny);
          max_nnz = wrap_int (5 * n);
          st = \<lparr>temp_values = calloc max_nnz, temp_col = calloc max_nnz,
                temp_row = calloc (wrap_int (n + 1)), rhs_b = calloc n, nnz_count = 0\<rparr>;
          x = calloc n;
          hx = 1 / real_of_int (wrap_int (nx - 1));
          hy = 1 / real_of_int (wrap_int (ny - 1));
          ke = (hy / hx + hx / hy) / 3;
          kn = - (hy / hx) / 6;
          kw = - (hx / hy) / 6
      in and_then (set_row 0 0 st) (\<lambda>st.
         and_then (for_upto ny (\<lambda>i. for_upto nx (\<lambda>j. assemble_node nx ny ke kn kw i j)) st) (\<lambda>st.
         and_then (for_upto (nnz_count st)
                     (\<lambda>i (vals, cols).
                        and_then (array_get (temp_values st) i) (\<lambda>v.
                        and_then (array_put vals i v) (\<lambda>vals.
                        and_then (array_get (temp_col st) i) (\<lambda>c.
                        and_then (array_put cols i c) (\<lambda>cols. Inr (vals, cols))))))
                     (malloc_cells (nnz_count st), malloc_cells (nnz_count st))) (\<lambda>(vals, cols).
         and_then (for_upto (n + 1)
                     (\<lambda>i rows. and_then (array_get (temp_row st) i) (array_put rows i))
                     (malloc_cells (wrap_int (n + 1)))) (\<lambda>rows.
         Inr \<lparr>sys_A = \<lparr>csr_n = n, csr_nnz = nnz_count st, csr_values = cells_of vals,
                       col_idx = cells_of cols, row_ptr = cells_of rows\<rparr>,
              sys_b = cells_of (rhs_b st), sys_x = cells_of x, sys_n = n\<rparr>)))))"

section \<open>Serial vector kernels (bicgstab\_serial.c)\<close>

definition dot_product :: "real list \<Rightarrow> real list \<Rightarrow> int \<Rightarrow> real" where
  "dot_product a b n = fold (\<lambda>i sum. sum + a ! i * b ! i) [0..<nat n] 0"

definition vector_copy :: "real list \<Rightarrow> real list \<Rightarrow> int \<Rightarrow> real list" where
  "vector_copy src dst n = fold (\<lambda>i dst. dst[i := src ! i]) [0..<nat n] dst"

definition vector_axpy :: "real \<Rightarrow> real list \<Rightarrow> real list \<Rightarrow> int \<Rightarrow> real list" where
  "vector_axpy a x y n = fold (\<lambda>i y. y[i := y ! i + a * x ! i]) [0..<nat n] y"

definition vector_axpby ::
  "real \<Rightarrow> real list \<Rightarrow> real \<Rightarrow> real list \<Rightarrow> real list \<Rightarrow> int \<Rightarrow> real list" where
  "vector_axpby a x b y z n = fold (\<lambda>i z. z[i := a * x ! i + b * y ! i]) [0..<nat n] z"

definition vector_norm :: "real list \<Rightarrow> int \<Rightarrow> real" where
  "vector_norm x n = sqrt (dot_product x x n)"

section \<open>The serial solver (bicgstab\_serial.c)\<close>

text \<open>
  The local variables of \<^verbatim>\<open>bicgstab_serial\<close> that live across loop iterations: the
  loop counter, the three scalars and the working vectors, together with the solution
  vector \<open>x\<close> of the system, which the loop updates in place.
\<close>

record bicg_state =
  iter :: int
  rho :: real
  alpha :: real
  omega :: real
  buf_r :: "real list"
  buf_r0 :: "real list"
  buf_p :: "real list"
  buf_v :: "real list"
  buf_s :: "real list"
  buf_t :: "real list"
  buf_x :: "real list"

text \<open>How one pass through the loop body ends: at a \<^verbatim>\<open>break\<close>, or at its last line.\<close>

datatype flow = Break | Continue

text \<open>
  \<^verbatim>\<open>malloc(n * sizeof(double))\<close>: a fresh buffer of \<open>n\<close> cells.  C leaves its contents
  indeterminate; here the cells start at \<open>0\<close>.  The first kernel that writes a work
  vector overwrites all its \<open>n\<close> cells with values that do not depend on the old ones
  (see \<open>vector_copy_overwrites\<close>, \<open>vector_axpby_overwrites\<close>, \<open>matvec_csr_overwrites\<close>),
  and the result of a solve is the same from any contents (\<open>scratch_contents_immaterial\<close>).
\<close>

definition malloc_vec :: "int \<Rightarrow> real list" where
  "malloc_vec n = replicate (nat n) 0"

text \<open>The breakdown threshold \<^verbatim>\<open>1e-30\<close>.\<close>

definition breakdown_eps :: real where
  "breakdown_eps = 1 / 10 ^ 30"

text \<open>Lines 86--87: \<^verbatim>\<open>rho_prev = rho; rho = dot_product(r0, r, n);\<close> (\<open>rho_prev\<close> is the
  \<open>rho\<close> of the state before).\<close>

definition update_rho :: "int \<Rightarrow> bicg_state \<Rightarrow> bicg_state" where
  "update_rho n st = st\<lparr>rho := dot_product (buf_r0 st) (buf_r st) n\<rparr>"

text \<open>Lines 94--110: the new direction \<open>p\<close>, \<open>v = A p\<close>, \<open>alpha\<close> and \<open>s = r - alpha v\<close>.\<close>

definition update_direction :: "CSRMatrix \<Rightarrow> int \<Rightarrow> real \<Rightarrow> bicg_state \<Rightarrow> bicg_state" where
  "update_direction A n rho_prev st =
     (let st = (if iter st = 0 then st\<lparr>buf_p := vector_copy (buf_r st) (buf_p st) n\<rparr>
                else let beta = (rho st / rho_prev) * (alpha st / omega st)
                     in st\<lparr>buf_p := fold (\<lambda>i p. p[i := buf_r st ! i
                                              + beta * (p ! i - omega st * buf_v st ! i)])
                                          [0..<nat n] (buf_p st)\<rparr>);
          st = st\<lparr>buf_v := matvec_csr A (buf_p st) (buf_v st)\<rparr>;
          st = st\<lparr>alpha := rho st / dot_product (buf_r0 st) (buf_v st) n\<rparr>
      in st\<lparr>buf_s := vector_axpby 1 (buf_r st) (- alpha st) (buf_v st) (buf_s st) n\<rparr>)"

text \<open>Lines 122--132: \<open>t = A s\<close>, \<open>omega\<close>, the two updates of \<open>x\<close> and \<open>r = s - omega t\<close>.\<close>

definition update_solution :: "CSRMatrix \<Rightarrow> int \<Rightarrow> bicg_state \<Rightarrow> bicg_state" where
  "update_solution A n st =
     (let st = st\<lparr>buf_t := matvec_csr A (buf_s st) (buf_t st)\<rparr>;
          st = st\<lparr>omega := dot_product (buf_t st) (buf_s st) n
                              / dot_product (buf_t st) (buf_t st) n\<rparr>;
          st = st\<lparr>buf_x := vector_axpy (alpha st) (buf_p st) (buf_x st) n\<rparr>;
          st = st\<lparr>buf_x := vector_axpy (omega st) (buf_s st) (buf_x st) n\<rparr>
      in st\<lparr>buf_r := vector_axpby 1 (buf_s st) (- omega st) (buf_t st) (buf_r st) n\<rparr>)"

text \<open>The loop body, lines 86--146, with its four \<^verbatim>\<open>break\<close>s in the order of the source.\<close>

definition serial_body ::
  "CSRMatrix \<Rightarrow> int \<Rightarrow> real \<Rightarrow> real \<Rightarrow> bicg_state \<Rightarrow> flow \<times> bicg_state" where
  "serial_body A n tol bnorm st0 =
     (let st1 = update_rho n st0
      in if \<bar>rho st1\<bar> < breakdown_eps then (Break, st1)
         else
           let st2 = update_direction A n (rho st0) st1;
               s_norm = vector_norm (buf_s st2) n
           in if s_norm / bnorm < tol
              then (Break, st2\<lparr>buf_x := vector_axpy (alpha st2) (buf_p st2) (buf_x st2) n\<rparr>)
              else
                let st3 = update_solution A n st2;
                    r_norm = vector_norm (buf_r st3) n
                in if r_norm / bnorm < tol then (Break, st3\<lparr>iter := iter st3 + 1\<rparr>)
                   else if \<bar>omega st3\<bar> < breakdown_eps then (Break, st3)
                   else (Continue, st3))"

lemma update_direction_iter: "iter (update_direction A n rp st) = iter st"
  by (simp add: update_direction_def Let_def)

lemma update_solution_iter: "iter (update_solution A n st) = iter st"
  by (simp add: update_solution_def Let_def)

lemma serial_body_Continue_iter:
  "serial_body A n tol bnorm st = (Continue, st') \<Longrightarrow> iter st' = iter st"
  by (auto simp: serial_body_def Let_def update_rho_def update_direction_iter
      update_solution_iter split: if_splits)

text \<open>\<^verbatim>\<open>for (iter = 0; iter < max_iter; iter++) { ... }\<close>, entered at any value of the
  loop state.\<close>

function serial_loop ::
  "CSRMatrix \<Rightarrow> int \<Rightarrow> int \<Rightarrow> real \<Rightarrow> real \<Rightarrow> bicg_state \<Rightarrow> bicg_state" where
  "serial_loop A n max_iter tol bnorm st =
     (if iter st < max_iter
      then (case serial_body A n tol bnorm st of
              (Break, st') \<Rightarrow> st'
            | (Continue, st') \<Rightarrow> serial_loop A n max_iter tol bnorm (st'\<lparr>iter := iter st' + 1\<rparr>))
      else st)"
  by pat_completeness auto
termination
  by (relation "measure (\<lambda>(A, n, max_iter, tol, bnorm, st). nat (max_iter - iter st))")
    (auto dest: serial_body_Continue_iter [OF sym])

declare serial_loop.simps [simp del]

text \<open>Lines 161--166: \<^verbatim>\<open>if (iter >= max_iter) return -1; return iter;\<close>\<close>

definition solver_return :: "int \<Rightarrow> int \<Rightarrow> int" where
  "solver_return max_iter it = (if it \<ge> max_iter then - 1 else it)"

text \<open>Lines 55--82: the work vectors, \<open>r = b\<close>, \<open>r0 = 1\<close>, \<open>p = r\<close> and the three scalars.\<close>

definition serial_init :: "FEMSystem \<Rightarrow> bicg_state" where
  "serial_init sys =
     (let n = sys_n sys;
          r = vector_copy (sys_b sys) (malloc_vec n) n;
          r0 = fold (\<lambda>i r0. r0[i := 1]) [0..<nat n] (malloc_vec n);
          p = vector_copy r (malloc_vec n) n
      in \<lparr>iter = 0, rho = 1, alpha = 1, omega = 1,
          buf_r = r, buf_r0 = r0, buf_p = p, buf_v = malloc_vec n,
          buf_s = malloc_vec n, buf_t = malloc_vec n, buf_x = sys_x sys\<rparr>)"

text \<open>The same initialisation from buffers with any contents, to show that the contents
  \<^verbatim>\<open>malloc\<close> leaves do not matter (\<open>scratch_contents_immaterial\<close>).\<close>

definition serial_init_from ::
  "real list \<Rightarrow> real list \<Rightarrow> real list \<Rightarrow> real list \<Rightarrow> real list \<Rightarrow> real list \<Rightarrow> FEMSystem
     \<Rightarrow> bicg_state" where
  "serial_init_from jr jr0 jp jv js jt sys =
     (let n = sys_n sys;
          r = vector_copy (sys_b sys) jr n;
          r0 = fold (\<lambda>i r0. r0[i := 1]) [0..<nat n] jr0;
          p = vector_copy r jp n
      in \<lparr>iter = 0, rho = 1, alpha = 1, omega = 1,
          buf_r = r, buf_r0 = r0, buf_p = p, buf_v = jv,
          buf_s = js, buf_t = jt, buf_x = sys_x sys\<rparr>)"

text \<open>Lines 81--82: \<^verbatim>\<open>bnorm = vector_norm(b, n); if (bnorm == 0.0) bnorm = 1.0;\<close>\<close>

definition serial_bnorm :: "FEMSystem \<Rightarrow> real" where
  "serial_bnorm sys =
     (let bnorm = vector_norm (sys_b sys) (sys_n sys) in if bnorm = 0 then 1 else bnorm)"

text \<open>
  The whole function.  Its result is the returned \<^verbatim>\<open>int\<close> and the system as the call
  leaves it; the elapsed time written to \<^verbatim>\<open>*solve_time\<close> is not part of the model.
\<close>

definition bicgstab_serial :: "FEMSystem \<Rightarrow> int \<Rightarrow> real \<Rightarrow> int \<times> FEMSystem" where
  "bicgstab_serial sys max_iter tol =
     (let st = serial_loop (sys_A sys) (sys_n sys) max_iter tol (serial_bnorm sys)
                 (serial_init sys)
      in (solver_return max_iter (iter st), sys\<lparr>sys_x := buf_x st\<rparr>))"

section \<open>The OpenMP solver (bicgstab\_parallel.c)\<close>

text \<open>
  \<^verbatim>\<open>omp_set_num_threads(num_threads)\<close> fixes the team of the parallel regions that
  follow; a request that is not positive leaves one thread.  A \<^verbatim>\<open>parallel for\<close> without
  a schedule clause splits the index range \<open>0..<n\<close> into one block of consecutive
  indices per thread.  The loop bodies of this file write cell \<open>i\<close> only and read no
  cell another index writes, so the blocks are run one after the other here.  For
  \<^verbatim>\<open>reduction(+:sum)\<close> every thread adds its block into a private copy that starts at
  \<open>0\<close>, and the private copies are added to the shared variable at the end.
\<close>

definition omp_team :: "int \<Rightarrow> nat" where
  "omp_team num_threads = max 1 (nat num_threads)"

definition omp_static_chunks :: "int \<Rightarrow> int \<Rightarrow> nat list list" where
  "omp_static_chunks num_threads n =
     (let T = omp_team num_threads; N = nat n; c = (N + T - 1) div T
      in map (\<lambda>t. [min N (t * c) ..< min N ((t + 1) * c)]) [0..<T])"

definition omp_parallel_for :: "(nat \<Rightarrow> 's \<Rightarrow> 's) \<Rightarrow> int \<Rightarrow> int \<Rightarrow> 's \<Rightarrow> 's" where
  "omp_parallel_for body num_threads n st =
     fold (\<lambda>chunk st. fold body chunk st) (omp_static_chunks num_threads n) st"

definition omp_reduction_sum :: "(nat \<Rightarrow> real) \<Rightarrow> int \<Rightarrow> int \<Rightarrow> real \<Rightarrow> real" where
  "omp_reduction_sum summand num_threads n shared =
     fold (\<lambda>chunk sum. sum + fold (\<lambda>i priv. priv + summand i) chunk 0)
       (omp_static_chunks num_threads n) shared"

definition dot_product_parallel :: "int \<Rightarrow> real list \<Rightarrow> real list \<Rightarrow> int \<Rightarrow> real" where
  "dot_product_parallel num_threads a b n = omp_reduction_sum (\<lambda>i. a ! i * b ! i) num_threads n 0"

definition vector_copy_parallel :: "int \<Rightarrow> real list \<Rightarrow> real list \<Rightarrow> int \<Rightarrow> real list" where
  "vector_copy_parallel num_threads src dst n =
     omp_parallel_for (\<lambda>i dst. dst[i := src ! i]) num_threads n dst"

definition vector_axpy_parallel ::
  "int \<Rightarrow> real \<Rightarrow> real list \<Rightarrow> real list \<Rightarrow> int \<Rightarrow> real list" where
  "vector_axpy_parallel num_threads a x y n =
     omp_parallel_for (\<lambda>i y. y[i := y ! i + a * x ! i]) num_threads n y"

definition vector_axpby_parallel ::
  "int \<Rightarrow> real \<Rightarrow> real list \<Rightarrow> real \<Rightarrow> real list \<Rightarrow> real list \<Rightarrow> int \<Rightarrow> real list" where
  "vector_axpby_parallel num_threads a x b y z n =
     omp_parallel_for (\<lambda>i z. z[i := a * x ! i + b * y ! i]) num_threads n z"

definition vector_norm_parallel :: "int \<Rightarrow> real list \<Rightarrow> int \<Rightarrow> real" where
  "vector_norm_parallel num_threads x n = sqrt (dot_product_parallel num_threads x x n)"

text \<open>
  \<^verbatim>\<open>double sum = 0.0; for (j = row_ptr[i]; j < row_ptr[i+1]; j++)
     sum += values[j] * x[col_idx[j]]; y[i] = sum;\<close>
\<close>

definition matvec_row_parallel ::
  "CSRMatrix \<Rightarrow> real list \<Rightarrow> nat \<Rightarrow> real list \<Rightarrow> real list" where
  "matvec_row_parallel A x i y =
     (let sum = fold (\<lambda>j sum. sum + csr_values A ! nat j * x ! nat (col_idx A ! nat j))
                  [row_ptr A ! i .. row_ptr A ! (i + 1) - 1] 0
      in y[i := sum])"

definition matvec_csr_parallel :: "int \<Rightarrow> CSRMatrix \<Rightarrow> real list \<Rightarrow> real list \<Rightarrow> real list" where
  "matvec_csr_parallel num_threads A x y =
     omp_parallel_for (matvec_row_parallel A x) num_threads (csr_n A) y"

definition update_rho_parallel :: "int \<Rightarrow> int \<Rightarrow> bicg_state \<Rightarrow> bicg_state" where
  "update_rho_parallel num_threads n st =
     st\<lparr>rho := dot_product_parallel num_threads (buf_r0 st) (buf_r st) n\<rparr>"

definition update_direction_parallel ::
  "int \<Rightarrow> CSRMatrix \<Rightarrow> int \<Rightarrow> real \<Rightarrow> bicg_state \<Rightarrow> bicg_state" where
  "update_direction_parallel num_threads A n rho_prev st =
     (let st = (if iter st = 0
                then st\<lparr>buf_p := vector_copy_parallel num_threads (buf_r st) (buf_p st) n\<rparr>
                else let beta = (rho st / rho_prev) * (alpha st / omega st)
                     in st\<lparr>buf_p := omp_parallel_for
                                (\<lambda>i p. p[i := buf_r st ! i
                                           + beta * (p ! i - omega st * buf_v st ! i)])
                                num_threads n (buf_p st)\<rparr>);
          st = st\<lparr>buf_v := matvec_csr_parallel num_threads A (buf_p st) (buf_v st)\<rparr>;
          st = st\<lparr>alpha := rho st / dot_product_parallel num_threads (buf_r0 st) (buf_v st) n\<rparr>
      in st\<lparr>buf_s := vector_axpby_parallel num_threads 1 (buf_r st) (- alpha st) (buf_v st)
                        (buf_s st) n\<rparr>)"

definition update_solution_parallel :: "int \<Rightarrow> CSRMatrix \<Rightarrow> int \<Rightarrow> bicg_state \<Rightarrow> bicg_state" where
  "update_solution_parallel num_threads A n st =
     (let st = st\<lparr>buf_t := matvec_csr_parallel num_threads A (buf_s st) (buf_t st)\<rparr>;
          st = st\<lparr>omega := dot_product_parallel num_threads (buf_t st) (buf_s st) n
                              / dot_product_parallel num_threads (buf_t st) (buf_t st) n\<rparr>;
          st = st\<lparr>buf_x := vector_axpy_parallel num_threads (alpha st) (buf_p st) (buf_x st) n\<rparr>;
          st = st\<lparr>buf_x := vector_axpy_parallel num_threads (omega st) (buf_s st) (buf_x st) n\<rparr>
      in st\<lparr>buf_r := vector_axpby_parallel num_threads 1 (buf_s st) (- omega st) (buf_t st)
                        (buf_r st) n\<rparr>)"

definition parallel_body ::
  "int \<Rightarrow> CSRMatrix \<Rightarrow> int \<Rightarrow> real \<Rightarrow> real \<Rightarrow> bicg_state \<Rightarrow> flow \<times> bicg_state" where
  "parallel_body num_threads A n tol bnorm st0 =
     (let st1 = update_rho_parallel num_threads n st0
      in if \<bar>rho st1\<bar> < breakdown_eps then (Break, st1)
         else
           let st2 = update_direction_parallel num_threads A n (rho st0) st1;
               s_norm = vector_norm_parallel num_threads (buf_s st2) n
           in if s_norm / bnorm < tol
              then (Break, st2\<lparr>buf_x := vector_axpy_parallel num_threads (alpha st2) (buf_p st2)
                                          (buf_x st2) n\<rparr>)
              else
                let st3 = update_solution_parallel num_threads A n st2;
                    r_norm = vector_norm_parallel num_threads (buf_r st3) n
                in if r_norm / bnorm < tol then (Break, st3\<lparr>iter := iter st3 + 1\<rparr>)
                   else if \<bar>omega st3\<bar> < breakdown_eps then (Break, st3)
                   else (Continue, st3))"

lemma update_direction_parallel_iter:
  "iter (update_direction_parallel nt A n rp st) = iter st"
  by (simp add: update_direction_parallel_def Let_def)

lemma update_solution_parallel_iter: "iter (update_solution_parallel nt A n st) = iter st"
  by (simp add: update_solution_parallel_def Let_def)

lemma parallel_body_Continue_iter:
  "parallel_body nt A n tol bnorm st = (Continue, st') \<Longrightarrow> iter st' = iter st"
  by (auto simp: parallel_body_def Let_def update_rho_parallel_def
      update_direction_parallel_iter update_solution_parallel_iter split: if_splits)

function parallel_loop ::
  "int \<Rightarrow> CSRMatrix \<Rightarrow> int \<Rightarrow> int \<Rightarrow> real \<Rightarrow> real \<Rightarrow> bicg_state \<Rightarrow> bicg_state" where
  "parallel_loop num_threads A n max_iter tol bnorm st =
     (if iter st < max_iter
      then (case parallel_body num_threads A n tol bnorm st of
              (Break, st') \<Rightarrow> st'
            | (Continue, st') \<Rightarrow>
                parallel_loop num_threads A n max_iter tol bnorm (st'\<lparr>iter := iter st' + 1\<rparr>))
      else st)"
  by pat_completeness auto
termination
  by (relation "measure (\<lambda>(nt, A, n, max_iter, tol, bnorm, st). nat (max_iter - iter st))")
    (auto dest: parallel_body_Continue_iter [OF sym])

declare parallel_loop.simps [simp del]

definition parallel_init :: "int \<Rightarrow> FEMSystem \<Rightarrow> bicg_state" where
  "parallel_init num_threads sys =
     (let n = sys_n sys;
          r = vector_copy_parallel num_threads (sys_b sys) (malloc_vec n) n;
          r0 = omp_parallel_for (\<lambda>i r0. r0[i := 1]) num_threads n (malloc_vec n);
          p = vector_copy_parallel num_threads r (malloc_vec n) n
      in \<lparr>iter = 0, rho = 1, alpha = 1, omega = 1,
          buf_r = r, buf_r0 = r0, buf_p = p, buf_v = malloc_vec n,
          buf_s = malloc_vec n, buf_t = malloc_vec n, buf_x = sys_x sys\<rparr>)"

definition parallel_bnorm :: "int \<Rightarrow> FEMSystem \<Rightarrow> real" where
  "parallel_bnorm num_threads sys =
     (let bnorm = vector_norm_parallel num_threads (sys_b sys) (sys_n sys)
      in if bnorm = 0 then 1 else bnorm)"

definition bicgstab_parallel :: "FEMSystem \<Rightarrow> int \<Rightarrow> real \<Rightarrow> int \<Rightarrow> int \<times> FEMSystem" where
  "bicgstab_parallel sys max_iter tol num_threads =
     (let st = parallel_loop num_threads (sys_A sys) (sys_n sys) max_iter tol
                 (parallel_bnorm num_threads sys) (parallel_init num_threads sys)
      in (solver_return max_iter (iter st), sys\<lparr>sys_x := buf_x st\<rparr>))"

section \<open>The solvers on a store of arrays\<close>

text \<open>
  The C functions receive pointers, and which arrays a solve writes is a question about
  addresses.  This section runs the statements of the two solvers on a store: a map from
  the address of an array of doubles to its contents, with a counter of the addresses
  \<^verbatim>\<open>malloc\<close> has handed out.  Every read \<^verbatim>\<open>a[i]\<close> and every write \<^verbatim>\<open>a[i] = v\<close> goes
  through the store, so a write through one pointer is seen through every pointer to the
  same array.  The two solvers differ in their loops only, and are written once, with
  the kind of loop as a parameter.  The solver has no assignment to an \<^verbatim>\<open>int\<close> array or
  to a field of the two structs; \<open>col_idx\<close>, \<open>row_ptr\<close>, \<open>n\<close> and \<open>nnz\<close> stay values.
\<close>

type_synonym addr = nat

record store =
  cells :: "addr \<Rightarrow> real list"
  brk :: addr

record CSRMatrix_ref =
  ref_n :: int
  ref_nnz :: int
  ref_values :: addr
  ref_col_idx :: "int list"
  ref_row_ptr :: "int list"

record FEMSystem_ref =
  ref_A :: CSRMatrix_ref
  ref_b :: addr
  ref_x :: addr
  ref_sys_n :: int

text \<open>\<^verbatim>\<open>a[i]\<close> as a value, and \<^verbatim>\<open>a[i] = v\<close>.\<close>

definition rd :: "store \<Rightarrow> addr \<Rightarrow> nat \<Rightarrow> real" where
  "rd m a i = cells m a ! i"

definition wr :: "addr \<Rightarrow> nat \<Rightarrow> real \<Rightarrow> store \<Rightarrow> store" where
  "wr a i v m = m\<lparr>cells := (cells m)(a := (cells m a)[i := v])\<rparr>"

text \<open>\<^verbatim>\<open>malloc\<close> returns an address not handed out before; \<^verbatim>\<open>free\<close> ends the life of the
  array.\<close>

definition malloc_at :: "int \<Rightarrow> store \<Rightarrow> addr \<times> store" where
  "malloc_at n m = (brk m, m\<lparr>cells := (cells m)(brk m := malloc_vec n), brk := brk m + 1\<rparr>)"

definition free_at :: "addr \<Rightarrow> store \<Rightarrow> store" where
  "free_at a m = m\<lparr>cells := (cells m)(a := [])\<rparr>"

text \<open>The loops of the serial file, and the \<^verbatim>\<open>parallel for\<close> loops of the OpenMP file
  with the number of threads in force.\<close>

datatype schedule = Serial | OpenMP int

definition for_range :: "schedule \<Rightarrow> (nat \<Rightarrow> 's \<Rightarrow> 's) \<Rightarrow> int \<Rightarrow> 's \<Rightarrow> 's" where
  "for_range sch body n st =
     (case sch of Serial \<Rightarrow> fold body [0..<nat n] st
      | OpenMP num_threads \<Rightarrow> omp_parallel_for body num_threads n st)"

definition sum_range :: "schedule \<Rightarrow> (nat \<Rightarrow> real) \<Rightarrow> int \<Rightarrow> real" where
  "sum_range sch summand n =
     (case sch of Serial \<Rightarrow> fold (\<lambda>i sum. sum + summand i) [0..<nat n] 0
      | OpenMP num_threads \<Rightarrow> omp_reduction_sum summand num_threads n 0)"

definition dot_product_at :: "schedule \<Rightarrow> addr \<Rightarrow> addr \<Rightarrow> int \<Rightarrow> store \<Rightarrow> real" where
  "dot_product_at sch a b n m = sum_range sch (\<lambda>i. rd m a i * rd m b i) n"

definition vector_copy_at :: "schedule \<Rightarrow> addr \<Rightarrow> addr \<Rightarrow> int \<Rightarrow> store \<Rightarrow> store" where
  "vector_copy_at sch src dst n m = for_range sch (\<lambda>i m. wr dst i (rd m src i) m) n m"

definition vector_axpy_at :: "schedule \<Rightarrow> real \<Rightarrow> addr \<Rightarrow> addr \<Rightarrow> int \<Rightarrow> store \<Rightarrow> store" where
  "vector_axpy_at sch a x y n m = for_range sch (\<lambda>i m. wr y i (rd m y i + a * rd m x i) m) n m"

definition vector_axpby_at ::
  "schedule \<Rightarrow> real \<Rightarrow> addr \<Rightarrow> real \<Rightarrow> addr \<Rightarrow> addr \<Rightarrow> int \<Rightarrow> store \<Rightarrow> store" where
  "vector_axpby_at sch a x b y z n m =
     for_range sch (\<lambda>i m. wr z i (a * rd m x i + b * rd m y i) m) n m"

definition vector_norm_at :: "schedule \<Rightarrow> addr \<Rightarrow> int \<Rightarrow> store \<Rightarrow> real" where
  "vector_norm_at sch x n m = sqrt (dot_product_at sch x x n m)"

definition matvec_row_at :: "CSRMatrix_ref \<Rightarrow> addr \<Rightarrow> addr \<Rightarrow> nat \<Rightarrow> store \<Rightarrow> store" where
  "matvec_row_at A x y i m =
     fold (\<lambda>j m. wr y i (rd m y i + rd m (ref_values A) (nat j)
                                     * rd m x (nat (ref_col_idx A ! nat j))) m)
       [ref_row_ptr A ! i .. ref_row_ptr A ! (i + 1) - 1] (wr y i 0 m)"

definition matvec_row_parallel_at ::
  "CSRMatrix_ref \<Rightarrow> addr \<Rightarrow> addr \<Rightarrow> nat \<Rightarrow> store \<Rightarrow> store" where
  "matvec_row_parallel_at A x y i m =
     (let sum = fold (\<lambda>j sum. sum + rd m (ref_values A) (nat j)
                                     * rd m x (nat (ref_col_idx A ! nat j)))
                  [ref_row_ptr A ! i .. ref_row_ptr A ! (i + 1) - 1] 0
      in wr y i sum m)"

definition matvec_csr_at :: "schedule \<Rightarrow> CSRMatrix_ref \<Rightarrow> addr \<Rightarrow> addr \<Rightarrow> store \<Rightarrow> store" where
  "matvec_csr_at sch A x y m =
     (case sch of Serial \<Rightarrow> fold (matvec_row_at A x y) [0..<nat (ref_n A)] m
      | OpenMP num_threads \<Rightarrow>
          omp_parallel_for (matvec_row_parallel_at A x y) num_threads (ref_n A) m)"

text \<open>The six work vectors of a solve, as the addresses \<^verbatim>\<open>malloc\<close> returned.\<close>

record work_ptrs =
  r_at :: addr
  r0_at :: addr
  p_at :: addr
  v_at :: addr
  s_at :: addr
  t_at :: addr

text \<open>The loop counter and the three scalars, with the store.\<close>

record solver_vars =
  fr_iter :: int
  fr_rho :: real
  fr_alpha :: real
  fr_omega :: real
  fr_mem :: store

definition update_rho_at :: "schedule \<Rightarrow> work_ptrs \<Rightarrow> int \<Rightarrow> solver_vars \<Rightarrow> solver_vars" where
  "update_rho_at sch W n fr =
     fr\<lparr>fr_rho := dot_product_at sch (r0_at W) (r_at W) n (fr_mem fr)\<rparr>"

definition update_direction_at ::
  "schedule \<Rightarrow> CSRMatrix_ref \<Rightarrow> work_ptrs \<Rightarrow> int \<Rightarrow> real \<Rightarrow> solver_vars \<Rightarrow> solver_vars" where
  "update_direction_at sch A W n rho_prev fr =
     (let fr = (if fr_iter fr = 0
                then fr\<lparr>fr_mem := vector_copy_at sch (r_at W) (p_at W) n (fr_mem fr)\<rparr>
                else let beta = (fr_rho fr / rho_prev) * (fr_alpha fr / fr_omega fr)
                     in fr\<lparr>fr_mem := for_range sch
                              (\<lambda>i m. wr (p_at W) i
                                 (rd m (r_at W) i
                                  + beta * (rd m (p_at W) i - fr_omega fr * rd m (v_at W) i)) m)
                              n (fr_mem fr)\<rparr>);
          fr = fr\<lparr>fr_mem := matvec_csr_at sch A (p_at W) (v_at W) (fr_mem fr)\<rparr>;
          fr = fr\<lparr>fr_alpha := fr_rho fr / dot_product_at sch (r0_at W) (v_at W) n (fr_mem fr)\<rparr>
      in fr\<lparr>fr_mem := vector_axpby_at sch 1 (r_at W) (- fr_alpha fr) (v_at W) (s_at W) n
                          (fr_mem fr)\<rparr>)"

definition update_solution_at ::
  "schedule \<Rightarrow> CSRMatrix_ref \<Rightarrow> work_ptrs \<Rightarrow> addr \<Rightarrow> int \<Rightarrow> solver_vars \<Rightarrow> solver_vars" where
  "update_solution_at sch A W x n fr =
     (let fr = fr\<lparr>fr_mem := matvec_csr_at sch A (s_at W) (t_at W) (fr_mem fr)\<rparr>;
          fr = fr\<lparr>fr_omega := dot_product_at sch (t_at W) (s_at W) n (fr_mem fr)
                                 / dot_product_at sch (t_at W) (t_at W) n (fr_mem fr)\<rparr>;
          fr = fr\<lparr>fr_mem := vector_axpy_at sch (fr_alpha fr) (p_at W) x n (fr_mem fr)\<rparr>;
          fr = fr\<lparr>fr_mem := vector_axpy_at sch (fr_omega fr) (s_at W) x n (fr_mem fr)\<rparr>
      in fr\<lparr>fr_mem := vector_axpby_at sch 1 (s_at W) (- fr_omega fr) (t_at W) (r_at W) n
                          (fr_mem fr)\<rparr>)"

definition solver_body_at ::
  "schedule \<Rightarrow> CSRMatrix_ref \<Rightarrow> work_ptrs \<Rightarrow> addr \<Rightarrow> int \<Rightarrow> real \<Rightarrow> real \<Rightarrow> solver_vars
     \<Rightarrow> flow \<times> solver_vars" where
  "solver_body_at sch A W x n tol bnorm fr0 =
     (let fr1 = update_rho_at sch W n fr0
      in if \<bar>fr_rho fr1\<bar> < breakdown_eps then (Break, fr1)
         else
           let fr2 = update_direction_at sch A W n (fr_rho fr0) fr1;
               s_norm = vector_norm_at sch (s_at W) n (fr_mem fr2)
           in if s_norm / bnorm < tol
              then (Break, fr2\<lparr>fr_mem := vector_axpy_at sch (fr_alpha fr2) (p_at W) x n
                                             (fr_mem fr2)\<rparr>)
              else
                let fr3 = update_solution_at sch A W x n fr2;
                    r_norm = vector_norm_at sch (r_at W) n (fr_mem fr3)
                in if r_norm / bnorm < tol then (Break, fr3\<lparr>fr_iter := fr_iter fr3 + 1\<rparr>)
                   else if \<bar>fr_omega fr3\<bar> < breakdown_eps then (Break, fr3)
                   else (Continue, fr3))"

lemma update_direction_at_iter: "fr_iter (update_direction_at sch A W n rp fr) = fr_iter fr"
  by (simp add: update_direction_at_def Let_def)

lemma update_solution_at_iter: "fr_iter (update_solution_at sch A W x n fr) = fr_iter fr"
  by (simp add: update_solution_at_def Let_def)

lemma solver_body_at_Continue_iter:
  "solver_body_at sch A W x n tol bnorm fr = (Continue, fr') \<Longrightarrow> fr_iter fr' = fr_iter fr"
  by (auto simp: solver_body_at_def Let_def update_rho_at_def update_direction_at_iter
      update_solution_at_iter split: if_splits)

function solver_loop_at ::
  "schedule \<Rightarrow> CSRMatrix_ref \<Rightarrow> work_ptrs \<Rightarrow> addr \<Rightarrow> int \<Rightarrow> int \<Rightarrow> real \<Rightarrow> real \<Rightarrow> solver_vars
     \<Rightarrow> solver_vars" where
  "solver_loop_at sch A W x n max_iter tol bnorm fr =
     (if fr_iter fr < max_iter
      then (case solver_body_at sch A W x n tol bnorm fr of
              (Break, fr') \<Rightarrow> fr'
            | (Continue, fr') \<Rightarrow>
                solver_loop_at sch A W x n max_iter tol bnorm (fr'\<lparr>fr_iter := fr_iter fr' + 1\<rparr>))
      else fr)"
  by pat_completeness auto
termination
  by (relation "measure (\<lambda>(sch, A, W, x, n, max_iter, tol, bnorm, fr).
                  nat (max_iter - fr_iter fr))")
    (auto dest: solver_body_at_Continue_iter [OF sym])

declare solver_loop_at.simps [simp del]

definition bicgstab_at ::
  "schedule \<Rightarrow> FEMSystem_ref \<Rightarrow> int \<Rightarrow> real \<Rightarrow> store \<Rightarrow> int \<times> store" where
  "bicgstab_at sch sys max_iter tol m =
     (let n = ref_sys_n sys; A = ref_A sys; b = ref_b sys; x = ref_x sys;
          (r, m) = malloc_at n m;
          (r0, m) = malloc_at n m;
          (p, m) = malloc_at n m;
          (v, m) = malloc_at n m;
          (s, m) = malloc_at n m;
          (t, m) = malloc_at n m;
          W = \<lparr>r_at = r, r0_at = r0, p_at = p, v_at = v, s_at = s, t_at = t\<rparr>;
          m = vector_copy_at sch b r n m;
          m = for_range sch (\<lambda>i m. wr r0 i 1 m) n m;
          m = vector_copy_at sch r p n m;
          bnorm = vector_norm_at sch b n m;
          bnorm = (if bnorm = 0 then 1 else bnorm);
          fr = solver_loop_at sch A W x n max_iter tol bnorm
                 \<lparr>fr_iter = 0, fr_rho = 1, fr_alpha = 1, fr_omega = 1, fr_mem = m\<rparr>;
          m = free_at t (free_at s (free_at v (free_at p (free_at r0 (free_at r (fr_mem fr))))))
      in (solver_return max_iter (fr_iter fr), m))"

definition bicgstab_serial_at :: "FEMSystem_ref \<Rightarrow> int \<Rightarrow> real \<Rightarrow> store \<Rightarrow> int \<times> store" where
  "bicgstab_serial_at sys max_iter tol m = bicgstab_at Serial sys max_iter tol m"

definition bicgstab_parallel_at ::
  "FEMSystem_ref \<Rightarrow> int \<Rightarrow> real \<Rightarrow> int \<Rightarrow> store \<Rightarrow> int \<times> store" where
  "bicgstab_parallel_at sys max_iter tol num_threads m =
     bicgstab_at (OpenMP num_threads) sys max_iter tol m"

text \<open>The system a store holds at the addresses of a system of pointers.\<close>

definition load_matrix :: "store \<Rightarrow> CSRMatrix_ref \<Rightarrow> CSRMatrix" where
  "load_matrix m A =
     \<lparr>csr_n = ref_n A, csr_nnz = ref_nnz A, csr_values = cells m (ref_values A),
      col_idx = ref_col_idx A, row_ptr = ref_row_ptr A\<rparr>"

definition load_system :: "store \<Rightarrow> FEMSystem_ref \<Rightarrow> FEMSystem" where
  "load_system m sys =
     \<lparr>sys_A = load_matrix m (ref_A sys), sys_b = cells m (ref_b sys),
      sys_x = cells m (ref_x sys), sys_n = ref_sys_n sys\<rparr>"

section \<open>Notions used to state the properties\<close>

text \<open>The sum that row \<open>i\<close> of the matrix contributes: the stored values of the row, each
  times the entry of \<open>x\<close> its column index selects.\<close>

definition csr_row_sum :: "CSRMatrix \<Rightarrow> real list \<Rightarrow> nat \<Rightarrow> real" where
  "csr_row_sum A x i =
     sum_list (map (\<lambda>j. csr_values A ! nat j * x ! nat (col_idx A ! nat j))
                 [row_ptr A ! i .. row_ptr A ! (i + 1) - 1])"

text \<open>The identity in CSR form: row \<open>i\<close> holds the single entry \<open>1\<close> in column \<open>i\<close>.\<close>

definition is_identity_csr :: "CSRMatrix \<Rightarrow> bool" where
  "is_identity_csr A =
     list_all (\<lambda>i. row_ptr A ! i = int i \<and> row_ptr A ! (i + 1) = int i + 1
                  \<and> col_idx A ! i = int i \<and> csr_values A ! i = 1)
       [0..<nat (csr_n A)]"

text \<open>
  The invariant of the CSR layout: \<open>row_ptr\<close> has \<open>n + 1\<close> entries, starts at \<open>0\<close>, does
  not decrease and ends at \<open>nnz\<close>; the value and column arrays have \<open>nnz\<close> entries; every
  column index lies in \<open>[0, n)\<close>.
\<close>

definition csr_invariant :: "CSRMatrix \<Rightarrow> bool" where
  "csr_invariant A =
     (0 \<le> csr_n A \<and> 0 \<le> csr_nnz A
      \<and> length (row_ptr A) = nat (csr_n A) + 1
      \<and> length (col_idx A) = nat (csr_nnz A)
      \<and> length (csr_values A) = nat (csr_nnz A)
      \<and> row_ptr A ! 0 = 0
      \<and> list_all (\<lambda>i. row_ptr A ! i \<le> row_ptr A ! (i + 1)) [0..<nat (csr_n A)]
      \<and> row_ptr A ! nat (csr_n A) = csr_nnz A
      \<and> list_all (\<lambda>c. 0 \<le> c \<and> c < csr_n A) (col_idx A))"

text \<open>The entries stored in the index range \<open>[row_ptr[i], row_ptr[i+1])\<close>, as pairs of a
  value and a column index.\<close>

definition csr_row :: "CSRMatrix \<Rightarrow> nat \<Rightarrow> (real \<times> int) list" where
  "csr_row A i =
     map (\<lambda>q. (csr_values A ! nat q, col_idx A ! nat q))
       [row_ptr A ! i .. row_ptr A ! (i + 1) - 1]"

text \<open>
  The entries of the row of the node at grid position \<open>(i, j)\<close>, as pairs of a value and a
  column, in the order in which \<^verbatim>\<open>create_fem_system\<close> adds them: a node on the boundary
  has the single entry \<open>1\<close> on the diagonal, an interior node has its west, south, own,
  north and east entry.  Node \<open>(i, j)\<close> is number \<open>i * nx + j\<close>.
\<close>

definition node_entries ::
  "int \<Rightarrow> int \<Rightarrow> real \<Rightarrow> real \<Rightarrow> real \<Rightarrow> int \<Rightarrow> int \<Rightarrow> (real \<times> int) list" where
  "node_entries nx ny ke kn kw i j =
     (if j = 0 \<or> i = ny - 1 \<or> j = nx - 1 \<or> i = 0 then [(1, i * nx + j)]
      else [(kw, i * nx + (j - 1)), (kn, (i - 1) * nx + j), (ke, i * nx + j),
            (kn, (i + 1) * nx + j), (kw, i * nx + (j + 1))])"

text \<open>The entries of the first \<open>k\<close> nodes, the nodes counted row by row.\<close>

definition entries_upto ::
  "int \<Rightarrow> int \<Rightarrow> real \<Rightarrow> real \<Rightarrow> real \<Rightarrow> nat \<Rightarrow> (real \<times> int) list" where
  "entries_upto nx ny ke kn kw k =
     concat (map (\<lambda>m. node_entries nx ny ke kn kw (int (m div nat nx)) (int (m mod nat nx)))
               [0..<k])"

text \<open>
  The invariant of the node loop after \<open>k\<close> of \<open>N\<close> nodes, for the entry lists \<open>E 0\<close>,
  \<open>E 1\<close>, \<dots>: no array is \<^verbatim>\<open>NULL\<close>, the arrays keep their sizes, the first
  \<open>nnz_count\<close> cells of the value and column arrays hold \<open>E k\<close>, and \<open>temp_row[m]\<close> is
  the number of entries of the first \<open>m\<close> nodes.
\<close>

definition asm_inv :: "nat \<Rightarrow> (nat \<Rightarrow> (real \<times> int) list) \<Rightarrow> nat \<Rightarrow> assembly \<Rightarrow> bool" where
  "asm_inv N E k st \<longleftrightarrow>
     (\<exists>tv tc tr b.
        st = \<lparr>temp_values = Some tv, temp_col = Some tc, temp_row = Some tr, rhs_b = Some b,
              nnz_count = int (length (E k))\<rparr>
        \<and> length tv = 5 * N \<and> length tc = 5 * N \<and> length tr = N + 1 \<and> length b = N
        \<and> take (length (E k)) tv = map fst (E k)
        \<and> take (length (E k)) tc = map snd (E k)
        \<and> (\<forall>m\<le>k. tr ! m = int (length (E m))))"

text \<open>The arrays a pass through the loop body may write: the work vectors other than
  \<open>r0\<close>, and \<open>x\<close>.\<close>

definition writable :: "work_ptrs \<Rightarrow> addr \<Rightarrow> addr set" where
  "writable W x = {r_at W, p_at W, v_at W, s_at W, t_at W, x}"

text \<open>The loop state of the list solver that a state of the store solver stands for, and
  the condition that the work vectors, \<open>x\<close> and the matrix values are eight different
  arrays.\<close>

definition abs_state :: "work_ptrs \<Rightarrow> addr \<Rightarrow> solver_vars \<Rightarrow> bicg_state" where
  "abs_state W x fr =
     \<lparr>iter = fr_iter fr, rho = fr_rho fr, alpha = fr_alpha fr, omega = fr_omega fr,
      buf_r = cells (fr_mem fr) (r_at W), buf_r0 = cells (fr_mem fr) (r0_at W),
      buf_p = cells (fr_mem fr) (p_at W), buf_v = cells (fr_mem fr) (v_at W),
      buf_s = cells (fr_mem fr) (s_at W), buf_t = cells (fr_mem fr) (t_at W),
      buf_x = cells (fr_mem fr) x\<rparr>"

definition separate :: "work_ptrs \<Rightarrow> addr \<Rightarrow> addr \<Rightarrow> bool" where
  "separate W x vals \<longleftrightarrow>
     distinct [r_at W, r0_at W, p_at W, v_at W, s_at W, t_at W, x, vals]"

text \<open>
  The loop states a solve passes through: the state at loop entry, and the state after
  every pass through the body that ends without a \<^verbatim>\<open>break\<close> and is followed by
  \<^verbatim>\<open>iter++\<close>.  A state \<open>st\<close> with \<open>iter st = k\<close> is the solve at loop index \<open>k\<close>.
\<close>

inductive serial_reaches ::
  "CSRMatrix \<Rightarrow> int \<Rightarrow> int \<Rightarrow> real \<Rightarrow> real \<Rightarrow> bicg_state \<Rightarrow> bicg_state \<Rightarrow> bool"
  for A n max_iter tol bnorm st0 where
    start: "serial_reaches A n max_iter tol bnorm st0 st0"
  | step: "serial_reaches A n max_iter tol bnorm st0 st \<Longrightarrow> iter st < max_iter \<Longrightarrow>
           serial_body A n tol bnorm st = (Continue, st') \<Longrightarrow>
           serial_reaches A n max_iter tol bnorm st0 (st'\<lparr>iter := iter st' + 1\<rparr>)"

subsection \<open>Small systems for concrete runs\<close>

text \<open>The \<open>1 \<times> 1\<close> identity with right-hand side \<open>1\<close>.\<close>

definition identity1 :: FEMSystem where
  "identity1 =
     \<lparr>sys_A = \<lparr>csr_n = 1, csr_nnz = 1, csr_values = [1], col_idx = [0], row_ptr = [0, 1]\<rparr>,
      sys_b = [1], sys_x = [0], sys_n = 1\<rparr>"

text \<open>The matrix with rows \<open>(2, 1)\<close> and \<open>(1, 2)\<close>, right-hand side \<open>(1, 0)\<close>; the solution
  is \<open>(2/3, -1/3)\<close>.\<close>

definition coupled2 :: FEMSystem where
  "coupled2 =
     \<lparr>sys_A = \<lparr>csr_n = 2, csr_nnz = 4, csr_values = [2, 1, 1, 2],
                col_idx = [0, 1, 0, 1], row_ptr = [0, 2, 4]\<rparr>,
      sys_b = [1, 0], sys_x = [0, 0], sys_n = 2\<rparr>"

text \<open>The coupled system in a store: the matrix values at address \<open>0\<close>, \<open>b\<close> at \<open>1\<close>, \<open>x\<close>
  at \<open>2\<close>.\<close>

definition coupled2_ref :: FEMSystem_ref where
  "coupled2_ref =
     \<lparr>ref_A = \<lparr>ref_n = 2, ref_nnz = 4, ref_values = 0, ref_col_idx = [0, 1, 0, 1],
                ref_row_ptr = [0, 2, 4]\<rparr>,
      ref_b = 1, ref_x = 2, ref_sys_n = 2\<rparr>"

definition coupled2_store :: store where
  "coupled2_store =
     \<lparr>cells = (\<lambda>a. [])(0 := [2, 1, 1, 2], 1 := [1, 0], 2 := [0, 0]), brk = 3\<rparr>"

text \<open>The matrix with rows \<open>(2, 1, 0)\<close>, \<open>(0, 2, 1)\<close> and \<open>(1, 0, 2)\<close>, right-hand side
  \<open>(1, 0, 0)\<close>.  All its column sums are equal, so the residual after one full step sums
  to \<open>0\<close>.\<close>

definition circulant3 :: FEMSystem where
  "circulant3 =
     \<lparr>sys_A = \<lparr>csr_n = 3, csr_nnz = 6, csr_values = [2, 1, 2, 1, 1, 2],
                col_idx = [0, 1, 1, 2, 0, 2], row_ptr = [0, 2, 4, 6]\<rparr>,
      sys_b = [1, 0, 0], sys_x = [0, 0, 0], sys_n = 3\<rparr>"

text \<open>The system of the \<open>3 \<times> 3\<close> grid: eight boundary nodes, and node \<open>4\<close> in the middle
  with its five entries.\<close>

definition grid3x3 :: FEMSystem where
  "grid3x3 =
     \<lparr>sys_A = \<lparr>csr_n = 9, csr_nnz = 13,
                csr_values = [1, 1, 1, 1, - (1 / 6), - (1 / 6), 2 / 3, - (1 / 6), - (1 / 6),
                              1, 1, 1, 1],
                col_idx = [0, 1, 2, 3, 3, 1, 4, 7, 5, 5, 6, 7, 8],
                row_ptr = [0, 1, 2, 3, 4, 9, 10, 11, 12, 13]\<rparr>,
      sys_b = [0, 0, 1, 0, 0, 1, 0, 0, 0], sys_x = [0, 0, 0, 0, 0, 0, 0, 0, 0], sys_n = 9\<rparr>"

section \<open>The kernels as sums and maps\<close>

lemma fold_add_sum_list:
  "fold (\<lambda>i (s::real). s + f i) xs a = a + sum_list (map f xs)"
  by (induction xs arbitrary: a) (simp_all add: add.assoc)

lemma dot_product_sum: "dot_product a b n = (\<Sum>i<nat n. a ! i * b ! i)"
  unfolding dot_product_def fold_add_sum_list
  by (simp add: interv_sum_list_conv_sum_set_nat atLeast0LessThan)

text \<open>A loop that writes cell \<open>i\<close> from the old cell \<open>i\<close> alone, run over \<open>0..<k\<close>.\<close>

lemma pointwise_fold_upt:
  "k \<le> length y \<Longrightarrow>
   fold (\<lambda>i y. y[i := g i (y ! i)]) [0..<k] y = map (\<lambda>i. g i (y ! i)) [0..<k] @ drop k y"
proof (induction k)
  case 0
  then show ?case by simp
next
  case (Suc k)
  then have IH: "fold (\<lambda>i y. y[i := g i (y ! i)]) [0..<k] y
      = map (\<lambda>i. g i (y ! i)) [0..<k] @ drop k y"
    by simp
  from Suc.prems have k: "k < length y" by simp
  show ?case
    unfolding upt_Suc_append [OF le0] fold_append comp_def IH
    using k by (intro nth_equalityI) (auto simp: nth_append nth_list_update)
qed

lemma pointwise_fold_full:
  "length y = k \<Longrightarrow>
   fold (\<lambda>i y. y[i := g i (y ! i)]) [0..<k] y = map (\<lambda>i. g i (y ! i)) [0..<k]"
  by (simp add: pointwise_fold_upt)

lemma vector_copy_overwrites:
  "length dst = nat n \<Longrightarrow> vector_copy src dst n = map (\<lambda>i. src ! i) [0..<nat n]"
  unfolding vector_copy_def by (rule pointwise_fold_full [where g = "\<lambda>i _. src ! i"])

lemma vector_axpby_overwrites:
  "length z = nat n \<Longrightarrow>
   vector_axpby a x b y z n = map (\<lambda>i. a * x ! i + b * y ! i) [0..<nat n]"
  unfolding vector_axpby_def
  by (rule pointwise_fold_full [where g = "\<lambda>i _. a * x ! i + b * y ! i"])

lemma vector_axpy_map:
  "length y = nat n \<Longrightarrow> vector_axpy a x y n = map (\<lambda>i. y ! i + a * x ! i) [0..<nat n]"
  unfolding vector_axpy_def
  by (rule pointwise_fold_full [where g = "\<lambda>i yi. yi + a * x ! i"])

lemma fill_ones:
  "fold (\<lambda>i r0. r0[i := 1]) [0..<nat n] (malloc_vec n) = replicate (nat n) (1::real)"
proof -
  have "fold (\<lambda>i r0. r0[i := (1::real)]) [0..<nat n] (malloc_vec n) = map (\<lambda>i. 1) [0..<nat n]"
    by (rule pointwise_fold_full [where g = "\<lambda>_ _. 1"]) (simp add: malloc_vec_def)
  then show ?thesis by (simp add: map_replicate_const)
qed

lemma inner_row_fold:
  "i < length y \<Longrightarrow>
   fold (\<lambda>j y. y[i := y ! i + h j]) js y = y[i := y ! i + sum_list (map h js)]"
  by (induction js arbitrary: y) (simp_all add: add.assoc)

text \<open>One row of the product writes the row sum into cell \<open>i\<close>, whatever the cell held.\<close>

lemma matvec_row_eq: "matvec_row A x i y = y[i := csr_row_sum A x i]"
proof (cases "i < length y")
  case True
  then show ?thesis
    unfolding matvec_row_def csr_row_sum_def
    by (subst inner_row_fold) simp_all
next
  case False
  then have len: "length y \<le> i" by simp
  have *: "fold (\<lambda>j y. y[i := h j y]) js y = y" for h :: "int \<Rightarrow> real list \<Rightarrow> real" and js
    using len by (induction js) (simp_all add: list_update_beyond)
  show ?thesis
    unfolding matvec_row_def
    using len *[of "\<lambda>j y. y ! i + csr_values A ! nat j * x ! nat (col_idx A ! nat j)"]
    by (simp add: list_update_beyond)
qed

lemma matvec_csr_overwrites:
  "length y = nat (csr_n A) \<Longrightarrow> matvec_csr A x y = map (csr_row_sum A x) [0..<nat (csr_n A)]"
  unfolding matvec_csr_def
  using pointwise_fold_full [where g = "\<lambda>i _. csr_row_sum A x i" and y = y and k = "nat (csr_n A)"]
  by (simp add: matvec_row_eq [abs_def])

lemma matvec_row_parallel_eq: "matvec_row_parallel A x i y = y[i := csr_row_sum A x i]"
  unfolding matvec_row_parallel_def csr_row_sum_def Let_def fold_add_sum_list by simp

lemma identity_row_sum:
  assumes "is_identity_csr A" and "i < nat (csr_n A)"
  shows "csr_row_sum A x i = x ! i"
proof -
  from assms have "row_ptr A ! i = int i" "row_ptr A ! (i + 1) = int i + 1"
    "col_idx A ! i = int i" "csr_values A ! i = 1"
    by (auto simp: is_identity_csr_def list_all_iff)
  then show ?thesis by (simp add: csr_row_sum_def)
qed

lemma dot_ones:
  "length r = nat n \<Longrightarrow> dot_product (replicate (nat n) 1) r n = sum_list r"
proof -
  assume len: "length r = nat n"
  have "map (\<lambda>i. replicate (nat n) (1::real) ! i * r ! i) [0..<nat n] = map (\<lambda>i. r ! i) [0..<nat n]"
    by (rule map_cong) simp_all
  also have "\<dots> = r"
    unfolding len [symmetric] by (rule map_nth)
  finally show ?thesis
    by (simp add: dot_product_def fold_add_sum_list)
qed

lemma dot_product_zero: "dot_product a (replicate (nat n) 0) n = 0"
proof -
  have "map (\<lambda>i. a ! i * replicate (nat n) (0::real) ! i) [0..<nat n] = map (\<lambda>i. 0) [0..<nat n]"
    (is "?l = ?r")
    by (rule map_cong) simp_all
  then have "sum_list ?l = sum_list ?r"
    by (rule arg_cong)
  then show ?thesis
    unfolding dot_product_def fold_add_sum_list by simp
qed

section \<open>The OpenMP kernels compute what the serial kernels compute\<close>

lemma upt_join: "i \<le> j \<Longrightarrow> j \<le> k \<Longrightarrow> [i..<j] @ [j..<k] = [i..<k]"
  by (metis le_Suc_ex upt_add_eq_append)

lemma concat_blocks:
  "concat (map (\<lambda>t. [min N (t * c) ..< min N ((t + 1) * c)]) [0..<T]) = [0..<min N (T * c)]"
proof (induction T)
  case 0
  then show ?case by simp
next
  case (Suc T)
  have "min N (T * c) \<le> min N ((T + 1) * c)" by (simp add: min.coboundedI2)
  then show ?case using Suc by (simp add: upt_join)
qed

lemma blocks_cover: "0 < T \<Longrightarrow> N \<le> T * ((N + T - 1) div T)" for N T :: nat
proof -
  assume T: "0 < T"
  have "(N + T - 1) mod T \<le> T - 1" using T by (simp add: less_Suc_eq_le [symmetric])
  moreover have "T * ((N + T - 1) div T) + (N + T - 1) mod T = N + T - 1" by simp
  ultimately show ?thesis using T by linarith
qed

text \<open>The blocks of the threads, in thread order, are the index range of the serial loop.\<close>

lemma omp_static_chunks_concat: "concat (omp_static_chunks num_threads n) = [0..<nat n]"
proof -
  have "0 < omp_team num_threads" by (simp add: omp_team_def)
  from blocks_cover [OF this, of "nat n"] show ?thesis
    unfolding omp_static_chunks_def Let_def concat_blocks by (simp add: min_absorb1)
qed

lemma omp_parallel_for_serial:
  "omp_parallel_for body num_threads n st = fold body [0..<nat n] st"
proof -
  have "fold (\<lambda>chunk st. fold body chunk st) xss st = fold body (concat xss) st" for xss
    by (induction xss arbitrary: st) simp_all
  then show ?thesis by (simp add: omp_parallel_for_def omp_static_chunks_concat)
qed

text \<open>Over the reals the sum of the private partial sums is the serial sum.\<close>

lemma omp_reduction_sum_serial:
  "omp_reduction_sum f num_threads n s0 = fold (\<lambda>i sum. sum + f i) [0..<nat n] s0"
proof -
  have "fold (\<lambda>chunk sum. sum + fold (\<lambda>i priv. priv + f i) chunk 0) xss s
      = s + sum_list (map f (concat xss))" for xss and s :: real
    by (induction xss arbitrary: s) (simp_all add: fold_add_sum_list add.assoc)
  then show ?thesis
    by (simp add: omp_reduction_sum_def omp_static_chunks_concat fold_add_sum_list)
qed

lemma dot_product_parallel_serial: "dot_product_parallel nt a b n = dot_product a b n"
  by (simp add: dot_product_parallel_def dot_product_def omp_reduction_sum_serial)

lemma vector_norm_parallel_serial: "vector_norm_parallel nt x n = vector_norm x n"
  by (simp add: vector_norm_parallel_def vector_norm_def dot_product_parallel_serial)

lemma vector_copy_parallel_serial: "vector_copy_parallel nt src dst n = vector_copy src dst n"
  by (simp add: vector_copy_parallel_def vector_copy_def omp_parallel_for_serial)

lemma vector_axpy_parallel_serial: "vector_axpy_parallel nt a x y n = vector_axpy a x y n"
  by (simp add: vector_axpy_parallel_def vector_axpy_def omp_parallel_for_serial)

lemma vector_axpby_parallel_serial:
  "vector_axpby_parallel nt a x b y z n = vector_axpby a x b y z n"
  by (simp add: vector_axpby_parallel_def vector_axpby_def omp_parallel_for_serial)

lemma matvec_csr_parallel_serial: "matvec_csr_parallel nt A x y = matvec_csr A x y"
  by (simp add: matvec_csr_parallel_def matvec_csr_def omp_parallel_for_serial
      matvec_row_parallel_eq [abs_def] matvec_row_eq [abs_def])

lemmas parallel_kernels_serial =
  dot_product_parallel_serial vector_norm_parallel_serial vector_copy_parallel_serial
  vector_axpy_parallel_serial vector_axpby_parallel_serial matvec_csr_parallel_serial
  omp_parallel_for_serial

lemma update_rho_parallel_serial: "update_rho_parallel nt n st = update_rho n st"
  by (simp add: update_rho_parallel_def update_rho_def parallel_kernels_serial)

lemma update_direction_parallel_serial:
  "update_direction_parallel nt A n rp st = update_direction A n rp st"
  by (simp add: update_direction_parallel_def update_direction_def parallel_kernels_serial)

lemma update_solution_parallel_serial:
  "update_solution_parallel nt A n st = update_solution A n st"
  by (simp add: update_solution_parallel_def update_solution_def parallel_kernels_serial)

lemma parallel_body_serial: "parallel_body nt A n tol bnorm st = serial_body A n tol bnorm st"
  by (simp add: parallel_body_def serial_body_def parallel_kernels_serial Let_def
      update_rho_parallel_serial update_direction_parallel_serial update_solution_parallel_serial)

lemma parallel_loop_serial:
  "parallel_loop nt A n max_iter tol bnorm st = serial_loop A n max_iter tol bnorm st"
proof (induction A n max_iter tol bnorm st rule: serial_loop.induct)
  case (1 A n max_iter tol bnorm st)
  show ?case
    using "1.IH"
    by (subst parallel_loop.simps, subst serial_loop.simps)
      (auto simp: parallel_body_serial split: prod.splits flow.splits)
qed

lemma parallel_init_serial: "parallel_init nt sys = serial_init sys"
  by (simp add: parallel_init_def serial_init_def parallel_kernels_serial)

lemma parallel_bnorm_serial: "parallel_bnorm nt sys = serial_bnorm sys"
  by (simp add: parallel_bnorm_def serial_bnorm_def parallel_kernels_serial)

lemma parallel_solver_serial:
  "bicgstab_parallel sys max_iter tol num_threads = bicgstab_serial sys max_iter tol"
  by (simp add: bicgstab_parallel_def bicgstab_serial_def parallel_loop_serial
      parallel_init_serial parallel_bnorm_serial)

subsection \<open>Other schedules\<close>

text \<open>
  OpenMP leaves the default schedule of a \<^verbatim>\<open>parallel for\<close> and the order in which the
  private copies of a reduction are combined to the implementation.  Over the reals
  neither matters: for any blocks that together hold every index \<open>0..<n\<close> once, taken in
  any order, a reduction gives the serial sum, and a loop that writes cell \<open>i\<close> from the
  old cell \<open>i\<close> gives the result of the serial loop.  The two statements are about the
  folds of \<open>omp_reduction_sum\<close> and \<open>omp_parallel_for\<close>, with any blocks in place of
  \<open>omp_static_chunks\<close>.
\<close>

lemma reduction_any_schedule:
  assumes "mset (concat chunks) = mset [0..<nat n]"
  shows "fold (\<lambda>chunk sum. sum + fold (\<lambda>i priv. priv + f i) chunk 0) chunks s0
       = fold (\<lambda>i sum. sum + f i) [0..<nat n] (s0::real)"
proof -
  have "fold (\<lambda>chunk sum. sum + fold (\<lambda>i priv. priv + f i) chunk 0) xss s
      = s + sum_list (map f (concat xss))" for xss and s :: real
    by (induction xss arbitrary: s) (simp_all add: fold_add_sum_list add.assoc)
  moreover have "sum_list (map f (concat chunks)) = sum_list (map f [0..<nat n])"
  proof -
    have "mset (map f (concat chunks)) = mset (map f [0..<nat n])"
      using assms by (metis mset_map)
    then show ?thesis
      by (metis sum_mset_sum_list)
  qed
  ultimately show ?thesis
    by (simp add: fold_add_sum_list)
qed

lemma pointwise_writes_commute:
  "(\<lambda>y. y[i := g i (y ! i)]) \<circ> (\<lambda>y. y[j := g j (y ! j)])
     = (\<lambda>y. y[j := g j (y ! j)]) \<circ> (\<lambda>y. y[i := g i (y ! i)])"
  by (cases "i = j") (auto simp: fun_eq_iff list_update_swap)

lemma parallel_for_any_schedule:
  assumes "mset (concat chunks) = mset [0..<nat n]"
  shows "fold (\<lambda>chunk y. fold (\<lambda>i y. y[i := g i (y ! i)]) chunk y) chunks y
       = fold (\<lambda>i y. y[i := g i (y ! i)]) [0..<nat n] y"
proof -
  have "fold (\<lambda>chunk y. fold (\<lambda>i y. y[i := g i (y ! i)]) chunk y) xss y
      = fold (\<lambda>i y. y[i := g i (y ! i)]) (concat xss) y" for xss
    by (induction xss arbitrary: y) simp_all
  moreover have "fold (\<lambda>i y. y[i := g i (y ! i)]) (concat chunks)
      = fold (\<lambda>i y. y[i := g i (y ! i)]) [0..<nat n]"
    by (rule fold_multiset_equiv [OF pointwise_writes_commute assms])
  ultimately show ?thesis
    by simp
qed

section \<open>The loop, one pass at a time\<close>

lemma serial_loop_Break:
  "iter st < max_iter \<Longrightarrow> serial_body A n tol bnorm st = (Break, st') \<Longrightarrow>
   serial_loop A n max_iter tol bnorm st = st'"
  by (subst serial_loop.simps) simp

lemma serial_loop_Continue:
  "iter st < max_iter \<Longrightarrow> serial_body A n tol bnorm st = (Continue, st') \<Longrightarrow>
   serial_loop A n max_iter tol bnorm st
     = serial_loop A n max_iter tol bnorm (st'\<lparr>iter := iter st' + 1\<rparr>)"
  by (subst serial_loop.simps) simp

lemma serial_loop_exit:
  "max_iter \<le> iter st \<Longrightarrow> serial_loop A n max_iter tol bnorm st = st"
  by (subst serial_loop.simps) simp

lemma serial_reaches_loop:
  "serial_reaches A n max_iter tol bnorm st0 st \<Longrightarrow>
   serial_loop A n max_iter tol bnorm st0 = serial_loop A n max_iter tol bnorm st"
  by (induction rule: serial_reaches.induct) (simp_all add: serial_loop_Continue)

lemma serial_reaches_iter:
  "serial_reaches A n max_iter tol bnorm st0 st \<Longrightarrow> iter st0 \<le> iter st"
  by (induction rule: serial_reaches.induct) (auto dest: serial_body_Continue_iter)

lemma serial_init_iter: "iter (serial_init sys) = 0"
  by (simp add: serial_init_def Let_def)

lemma serial_init_x: "buf_x (serial_init sys) = sys_x sys"
  by (simp add: serial_init_def Let_def)

lemma serial_init_r0: "buf_r0 (serial_init sys) = replicate (nat (sys_n sys)) 1"
  by (simp add: serial_init_def Let_def fill_ones)

lemma serial_init_r: "buf_r (serial_init sys) = map (\<lambda>i. sys_b sys ! i) [0..<nat (sys_n sys)]"
  by (simp add: serial_init_def Let_def vector_copy_overwrites malloc_vec_def)

lemma update_direction_rho: "rho (update_direction A n rp st) = rho st"
  by (simp add: update_direction_def Let_def)

lemma update_solution_rho: "rho (update_solution A n st) = rho st"
  by (simp add: update_solution_def Let_def)

lemma serial_body_rho:
  "rho (snd (serial_body A n tol bnorm st)) = dot_product (buf_r0 st) (buf_r st) n"
  by (simp add: serial_body_def Let_def update_rho_def update_direction_rho update_solution_rho)

text \<open>The three \<^verbatim>\<open>break\<close>s the properties below are about.\<close>

lemma rho_break:
  "\<bar>dot_product (buf_r0 st) (buf_r st) n\<bar> < breakdown_eps \<Longrightarrow>
   serial_body A n tol bnorm st = (Break, update_rho n st)"
  by (simp add: serial_body_def update_rho_def)

lemma first_check_break:
  assumes "\<not> \<bar>dot_product (buf_r0 st) (buf_r st) n\<bar> < breakdown_eps"
    and "st2 = update_direction A n (rho st) (update_rho n st)"
    and "vector_norm (buf_s st2) n / bnorm < tol"
  shows "serial_body A n tol bnorm st
    = (Break, st2\<lparr>buf_x := vector_axpy (alpha st2) (buf_p st2) (buf_x st2) n\<rparr>)"
  using assms by (simp add: serial_body_def Let_def update_rho_def)

lemma second_check_break:
  assumes "\<not> \<bar>dot_product (buf_r0 st) (buf_r st) n\<bar> < breakdown_eps"
    and "st2 = update_direction A n (rho st) (update_rho n st)"
    and "\<not> vector_norm (buf_s st2) n / bnorm < tol"
    and "st3 = update_solution A n st2"
    and "vector_norm (buf_r st3) n / bnorm < tol"
  shows "serial_body A n tol bnorm st = (Break, st3\<lparr>iter := iter st + 1\<rparr>)"
  using assms
  by (simp add: serial_body_def Let_def update_rho_def update_solution_iter update_direction_iter)

text \<open>
  What the solver returns when the first convergence check passes at a loop state: the
  loop index itself, and \<open>x + alpha p\<close>.
\<close>

lemma first_check_returns_index:
  assumes "serial_reaches (sys_A sys) (sys_n sys) max_iter tol (serial_bnorm sys)
             (serial_init sys) st"
    and "iter st < max_iter"
    and "\<not> \<bar>dot_product (buf_r0 st) (buf_r st) (sys_n sys)\<bar> < breakdown_eps"
    and "st2 = update_direction (sys_A sys) (sys_n sys) (rho st) (update_rho (sys_n sys) st)"
    and "vector_norm (buf_s st2) (sys_n sys) / serial_bnorm sys < tol"
  shows "bicgstab_serial sys max_iter tol
     = (iter st, sys\<lparr>sys_x := vector_axpy (alpha st2) (buf_p st2) (buf_x st) (sys_n sys)\<rparr>)"
proof -
  have x: "buf_x st2 = buf_x st" and i: "iter st2 = iter st"
    by (simp_all add: assms(4) update_direction_def update_rho_def Let_def)
  have "serial_loop (sys_A sys) (sys_n sys) max_iter tol (serial_bnorm sys) (serial_init sys)
      = st2\<lparr>buf_x := vector_axpy (alpha st2) (buf_p st2) (buf_x st2) (sys_n sys)\<rparr>"
    using serial_reaches_loop [OF assms(1)]
      serial_loop_Break [OF assms(2) first_check_break [OF assms(3,4,5)]]
    by simp
  then show ?thesis
    using assms(2) by (simp add: bicgstab_serial_def solver_return_def x i)
qed

text \<open>
  What the solver returns when the second convergence check passes at a loop state: the
  loop index plus one, unless that is \<open>max_iter\<close>, in which case it returns \<open>-1\<close>.
\<close>

lemma second_check_returns:
  assumes "serial_reaches (sys_A sys) (sys_n sys) max_iter tol (serial_bnorm sys)
             (serial_init sys) st"
    and "iter st < max_iter"
    and "\<not> \<bar>dot_product (buf_r0 st) (buf_r st) (sys_n sys)\<bar> < breakdown_eps"
    and "st2 = update_direction (sys_A sys) (sys_n sys) (rho st) (update_rho (sys_n sys) st)"
    and "\<not> vector_norm (buf_s st2) (sys_n sys) / serial_bnorm sys < tol"
    and "st3 = update_solution (sys_A sys) (sys_n sys) st2"
    and "vector_norm (buf_r st3) (sys_n sys) / serial_bnorm sys < tol"
  shows "bicgstab_serial sys max_iter tol
     = (if iter st + 1 = max_iter then - 1 else iter st + 1, sys\<lparr>sys_x := buf_x st3\<rparr>)"
proof -
  have "serial_loop (sys_A sys) (sys_n sys) max_iter tol (serial_bnorm sys) (serial_init sys)
      = st3\<lparr>iter := iter st + 1\<rparr>"
    using serial_reaches_loop [OF assms(1)]
      serial_loop_Break [OF assms(2) second_check_break [OF assms(3,4,5,6,7)]]
    by simp
  then show ?thesis
    using assms(2) by (auto simp: bicgstab_serial_def solver_return_def)
qed

lemma rho_breakdown_at_start:
  assumes "0 < max_iter"
    and "\<bar>dot_product (buf_r0 (serial_init sys)) (buf_r (serial_init sys)) (sys_n sys)\<bar>
           < breakdown_eps"
  shows "bicgstab_serial sys max_iter tol = (0, sys)"
proof -
  have "serial_loop (sys_A sys) (sys_n sys) max_iter tol (serial_bnorm sys) (serial_init sys)
      = update_rho (sys_n sys) (serial_init sys)"
    by (rule serial_loop_Break [OF _ rho_break [OF assms(2)]])
      (simp add: serial_init_iter assms(1))
  then show ?thesis
    using assms(1)
    by (simp add: bicgstab_serial_def solver_return_def update_rho_def serial_init_iter
        serial_init_x)
qed

lemma full_pass_continue:
  assumes "\<not> \<bar>dot_product (buf_r0 st) (buf_r st) n\<bar> < breakdown_eps"
    and "st2 = update_direction A n (rho st) (update_rho n st)"
    and "\<not> vector_norm (buf_s st2) n / bnorm < tol"
    and "st3 = update_solution A n st2"
    and "\<not> vector_norm (buf_r st3) n / bnorm < tol"
    and "\<not> \<bar>omega st3\<bar> < breakdown_eps"
  shows "serial_body A n tol bnorm st = (Continue, st3)"
  using assms by (simp add: serial_body_def Let_def update_rho_def)

section \<open>The contents of the fresh buffers\<close>

lemma serial_init_from_malloc:
  "serial_init sys = serial_init_from (malloc_vec (sys_n sys)) (malloc_vec (sys_n sys))
     (malloc_vec (sys_n sys)) (malloc_vec (sys_n sys)) (malloc_vec (sys_n sys))
     (malloc_vec (sys_n sys)) sys"
  by (simp add: serial_init_def serial_init_from_def)

lemma fill_ones_overwrites:
  "length jr0 = nat n \<Longrightarrow> fold (\<lambda>i r0. r0[i := 1]) [0..<nat n] jr0 = replicate (nat n) (1::real)"
proof -
  assume "length jr0 = nat n"
  then have "fold (\<lambda>i r0. r0[i := (1::real)]) [0..<nat n] jr0 = map (\<lambda>i. 1) [0..<nat n]"
    by (rule pointwise_fold_full [where g = "\<lambda>_ _. 1"])
  then show ?thesis by (simp add: map_replicate_const)
qed

lemma serial_init_from_live:
  assumes "length jr = nat (sys_n sys)" "length jr0 = nat (sys_n sys)"
    "length jp = nat (sys_n sys)"
  shows "serial_init_from jr jr0 jp jv js jt sys
       = (serial_init sys)\<lparr>buf_v := jv, buf_s := js, buf_t := jt\<rparr>"
  using assms
  by (simp add: serial_init_from_def serial_init_def Let_def vector_copy_overwrites
      fill_ones_overwrites malloc_vec_def)

lemma update_direction_first_pass:
  assumes "iter st = 0" and "length (buf_v st) = nat (csr_n A)" and "length jv = nat (csr_n A)"
    and "length (buf_s st) = nat n" and "length js = nat n"
  shows "update_direction A n rp (st\<lparr>buf_v := jv, buf_s := js, buf_t := jt\<rparr>)
       = (update_direction A n rp st)\<lparr>buf_t := jt\<rparr>"
  using assms
  by (simp add: update_direction_def Let_def matvec_csr_overwrites vector_axpby_overwrites)

lemma update_solution_overwrites_t:
  assumes "length (buf_t st) = nat (csr_n A)" and "length jt = nat (csr_n A)"
  shows "update_solution A n (st\<lparr>buf_t := jt\<rparr>) = update_solution A n st"
  using assms by (simp add: update_solution_def Let_def matvec_csr_overwrites)

lemma update_direction_t: "buf_t (update_direction A n rp st) = buf_t st"
  by (simp add: update_direction_def Let_def)

lemma serial_body_first_pass:
  assumes "iter st = 0"
    and "length (buf_v st) = nat (csr_n A)" and "length jv = nat (csr_n A)"
    and "length (buf_s st) = nat n" and "length js = nat n"
    and "length (buf_t st) = nat (csr_n A)" and "length jt = nat (csr_n A)"
    and "serial_body A n tol bnorm st = (fl, st1)"
    and "serial_body A n tol bnorm (st\<lparr>buf_v := jv, buf_s := js, buf_t := jt\<rparr>) = (fl', st1')"
  shows "fl' = fl \<and> iter st1' = iter st1 \<and> buf_x st1' = buf_x st1
       \<and> (fl = Continue \<longrightarrow> st1' = st1)"
proof -
  let ?st' = "st\<lparr>buf_v := jv, buf_s := js, buf_t := jt\<rparr>"
  define st2 where "st2 = update_direction A n (rho st) (update_rho n st)"
  define st3 where "st3 = update_solution A n st2"
  have r0: "rho ?st' = rho st"
    by simp
  have r1: "rho (update_rho n ?st') = rho (update_rho n st)"
    by (simp add: update_rho_def)
  have 1: "update_rho n ?st' = (update_rho n st)\<lparr>buf_v := jv, buf_s := js, buf_t := jt\<rparr>"
    by (simp add: update_rho_def)
  have 2: "update_direction A n (rho st) (update_rho n ?st') = st2\<lparr>buf_t := jt\<rparr>"
    unfolding 1 st2_def using assms(1-5)
    by (intro update_direction_first_pass) (simp_all add: update_rho_def)
  have 3: "update_solution A n (st2\<lparr>buf_t := jt\<rparr>) = st3"
    unfolding st3_def st2_def using assms(6,7)
    by (intro update_solution_overwrites_t) (simp_all add: update_direction_t update_rho_def)
  have b: "serial_body A n tol bnorm st =
      (if \<bar>rho (update_rho n st)\<bar> < breakdown_eps then (Break, update_rho n st)
       else if vector_norm (buf_s st2) n / bnorm < tol
         then (Break, st2\<lparr>buf_x := vector_axpy (alpha st2) (buf_p st2) (buf_x st2) n\<rparr>)
       else if vector_norm (buf_r st3) n / bnorm < tol then (Break, st3\<lparr>iter := iter st3 + 1\<rparr>)
       else if \<bar>omega st3\<bar> < breakdown_eps then (Break, st3) else (Continue, st3))"
    unfolding serial_body_def Let_def st2_def [symmetric] st3_def [symmetric] by simp
  have b': "serial_body A n tol bnorm ?st' =
      (if \<bar>rho (update_rho n st)\<bar> < breakdown_eps then (Break, update_rho n ?st')
       else if vector_norm (buf_s st2) n / bnorm < tol
         then (Break, st2\<lparr>buf_t := jt,
                 buf_x := vector_axpy (alpha st2) (buf_p st2) (buf_x st2) n\<rparr>)
       else if vector_norm (buf_r st3) n / bnorm < tol then (Break, st3\<lparr>iter := iter st3 + 1\<rparr>)
       else if \<bar>omega st3\<bar> < breakdown_eps then (Break, st3) else (Continue, st3))"
    unfolding serial_body_def Let_def r0 r1 2 by (simp add: 3)
  from assms(8,9) show ?thesis
    unfolding b b' by (auto simp: 1 update_rho_def split: if_splits)
qed

text \<open>
  The contents of the six fresh buffers do not matter: from any contents of the right
  lengths, for a system whose matrix has the size of its vectors, the solver returns the
  same count and the same \<open>x\<close>.
\<close>

lemma scratch_contents_immaterial:
  assumes len: "length jr = nat (sys_n sys)" "length jr0 = nat (sys_n sys)"
      "length jp = nat (sys_n sys)" "length jv = nat (sys_n sys)" "length js = nat (sys_n sys)"
      "length jt = nat (sys_n sys)"
    and n: "csr_n (sys_A sys) = sys_n sys"
    and fin: "st = serial_loop (sys_A sys) (sys_n sys) max_iter tol (serial_bnorm sys)
                (serial_init_from jr jr0 jp jv js jt sys)"
  shows "(solver_return max_iter (iter st), sys\<lparr>sys_x := buf_x st\<rparr>)
       = bicgstab_serial sys max_iter tol"
proof -
  let ?A = "sys_A sys" and ?n = "sys_n sys" and ?bn = "serial_bnorm sys"
  let ?st0 = "serial_init sys"
  let ?st0' = "?st0\<lparr>buf_v := jv, buf_s := js, buf_t := jt\<rparr>"
  have init: "serial_init_from jr jr0 jp jv js jt sys = ?st0'"
    by (rule serial_init_from_live [OF len(1-3)])
  have lens: "length (buf_v ?st0) = nat (csr_n ?A)" "length (buf_s ?st0) = nat ?n"
    "length (buf_t ?st0) = nat (csr_n ?A)"
    by (simp_all add: serial_init_def Let_def malloc_vec_def n)
  have "iter (serial_loop ?A ?n max_iter tol ?bn ?st0')
        = iter (serial_loop ?A ?n max_iter tol ?bn ?st0)
      \<and> buf_x (serial_loop ?A ?n max_iter tol ?bn ?st0')
        = buf_x (serial_loop ?A ?n max_iter tol ?bn ?st0)"
  proof (cases "0 < max_iter")
    case False
    then show ?thesis
      by (simp add: serial_loop_exit serial_init_iter)
  next
    case True
    then have it: "iter ?st0 < max_iter" "iter ?st0' < max_iter"
      by (simp_all add: serial_init_iter)
    obtain fl st1 where b: "serial_body ?A ?n tol ?bn ?st0 = (fl, st1)"
      by force
    obtain fl' st1' where b': "serial_body ?A ?n tol ?bn ?st0' = (fl', st1')"
      by force
    from serial_body_first_pass [OF serial_init_iter lens(1) _ lens(2) _ lens(3) _ b b']
    have eq: "fl' = fl" "iter st1' = iter st1" "buf_x st1' = buf_x st1"
      "fl = Continue \<longrightarrow> st1' = st1"
      using len n by simp_all
    show ?thesis
    proof (cases fl)
      case Break
      then show ?thesis
        using serial_loop_Break [OF it(1) b [unfolded Break]]
          serial_loop_Break [OF it(2) b' [unfolded eq(1) Break]] eq
        by simp
    next
      case Continue
      then show ?thesis
        using serial_loop_Continue [OF it(1) b [unfolded Continue]]
          serial_loop_Continue [OF it(2) b' [unfolded eq(1) Continue]] eq
        by simp
    qed
  qed
  then show ?thesis
    by (simp add: fin init bicgstab_serial_def Let_def)
qed

section \<open>Concrete runs\<close>

lemmas kernel_defs = vector_copy_def malloc_vec_def vector_norm_def dot_product_def
  matvec_csr_def matvec_row_def vector_axpby_def vector_axpy_def breakdown_eps_def

lemma upt_0_2: "[0..<2] = [0, Suc 0]"
  by (simp add: upt_rec)

lemma upt_0_3: "[0..<3] = [0, Suc 0, 2]"
  by (simp add: upt_rec)

lemma replicate_2: "replicate 2 x = [x, x]"
  by (simp add: numeral_2_eq_2)

lemma replicate_3: "replicate 3 x = [x, x, x]"
  by (simp add: numeral_3_eq_3)

lemma upto_0_1: "[0..1::int] = [0, 1]"
  by (simp add: upto.simps)

lemma upto_2_3: "[2..3::int] = [2, 3]"
  by (simp add: upto.simps)

lemma upto_4_5: "[4..5::int] = [4, 5]"
  by (simp add: upto.simps)

lemmas small_ranges = upt_0_2 upt_0_3 replicate_2 replicate_3 upto_0_1 upto_2_3 upto_4_5

lemma sqrt_not_below: "c\<^sup>2 \<le> x \<Longrightarrow> \<not> sqrt x < c"
  using real_le_rsqrt [of c x] by simp

subsection \<open>The identity system\<close>

lemma identity1_init:
  "serial_init identity1 = \<lparr>iter = 0, rho = 1, alpha = 1, omega = 1, buf_r = [1], buf_r0 = [1],
        buf_p = [1], buf_v = [0], buf_s = [0], buf_t = [0], buf_x = [0]\<rparr>"
  by (simp add: serial_init_def identity1_def Let_def kernel_defs)

lemma identity1_bnorm: "serial_bnorm identity1 = 1"
  by (simp add: serial_bnorm_def identity1_def Let_def kernel_defs)

lemma identity1_direction:
  "update_direction (sys_A identity1) 1 1 (update_rho 1 (serial_init identity1))
     = \<lparr>iter = 0, rho = 1, alpha = 1, omega = 1, buf_r = [1], buf_r0 = [1],
        buf_p = [1], buf_v = [1], buf_s = [0], buf_t = [0], buf_x = [0]\<rparr>"
  unfolding identity1_init
  by (simp add: identity1_def update_rho_def update_direction_def Let_def kernel_defs)

subsection \<open>The coupled system\<close>

lemma coupled2_init:
  "serial_init coupled2 = \<lparr>iter = 0, rho = 1, alpha = 1, omega = 1, buf_r = [1, 0],
        buf_r0 = [1, 1], buf_p = [1, 0], buf_v = [0, 0], buf_s = [0, 0],
        buf_t = [0, 0], buf_x = [0, 0]\<rparr>"
  by (simp add: serial_init_def coupled2_def Let_def kernel_defs small_ranges)

lemma coupled2_bnorm: "serial_bnorm coupled2 = 1"
  by (simp add: serial_bnorm_def coupled2_def Let_def kernel_defs small_ranges)

lemma coupled2_direction:
  "update_direction (sys_A coupled2) 2 1 (update_rho 2 (serial_init coupled2))
     = \<lparr>iter = 0, rho = 1, alpha = 1 / 3, omega = 1, buf_r = [1, 0], buf_r0 = [1, 1],
        buf_p = [1, 0], buf_v = [2, 1], buf_s = [1 / 3, - 1 / 3], buf_t = [0, 0],
        buf_x = [0, 0]\<rparr>"
  unfolding coupled2_init
  by (simp add: coupled2_def update_rho_def update_direction_def Let_def kernel_defs
      small_ranges)

lemma coupled2_solution:
  "update_solution (sys_A coupled2) 2
     \<lparr>iter = 0, rho = 1, alpha = 1 / 3, omega = 1, buf_r = [1, 0], buf_r0 = [1, 1],
        buf_p = [1, 0], buf_v = [2, 1], buf_s = [1 / 3, - 1 / 3], buf_t = [0, 0],
        buf_x = [0, 0]\<rparr>
     = \<lparr>iter = 0, rho = 1, alpha = 1 / 3, omega = 1, buf_r = [0, 0], buf_r0 = [1, 1],
        buf_p = [1, 0], buf_v = [2, 1], buf_s = [1 / 3, - 1 / 3], buf_t = [1 / 3, - 1 / 3],
        buf_x = [2 / 3, - 1 / 3]\<rparr>"
  by (simp add: coupled2_def update_solution_def Let_def kernel_defs small_ranges)

lemma coupled2_s_norm: "\<not> vector_norm [1 / 3, - 1 / 3] 2 / 1 < 1 / 10 ^ 8"
proof -
  have "vector_norm [1 / 3, - 1 / 3] 2 = sqrt (2 / 9)"
    by (simp add: kernel_defs small_ranges)
  moreover have "\<not> sqrt (2 / 9) < 1 / 10 ^ 8"
    by (rule sqrt_not_below) (simp add: power2_eq_square)
  ultimately show ?thesis by simp
qed

subsection \<open>The circulant system\<close>

lemma circulant3_init:
  "serial_init circulant3 = \<lparr>iter = 0, rho = 1, alpha = 1, omega = 1, buf_r = [1, 0, 0],
        buf_r0 = [1, 1, 1], buf_p = [1, 0, 0], buf_v = [0, 0, 0], buf_s = [0, 0, 0],
        buf_t = [0, 0, 0], buf_x = [0, 0, 0]\<rparr>"
  by (simp add: serial_init_def circulant3_def Let_def kernel_defs small_ranges)

lemma circulant3_bnorm: "serial_bnorm circulant3 = 1"
  by (simp add: serial_bnorm_def circulant3_def Let_def kernel_defs small_ranges)

lemma circulant3_direction:
  "update_direction (sys_A circulant3) 3 1 (update_rho 3 (serial_init circulant3))
     = \<lparr>iter = 0, rho = 1, alpha = 1 / 3, omega = 1, buf_r = [1, 0, 0], buf_r0 = [1, 1, 1],
        buf_p = [1, 0, 0], buf_v = [2, 0, 1], buf_s = [1 / 3, 0, - 1 / 3], buf_t = [0, 0, 0],
        buf_x = [0, 0, 0]\<rparr>"
  unfolding circulant3_init
  by (simp add: circulant3_def update_rho_def update_direction_def Let_def kernel_defs
      small_ranges)

lemma circulant3_solution:
  "update_solution (sys_A circulant3) 3
     \<lparr>iter = 0, rho = 1, alpha = 1 / 3, omega = 1, buf_r = [1, 0, 0], buf_r0 = [1, 1, 1],
        buf_p = [1, 0, 0], buf_v = [2, 0, 1], buf_s = [1 / 3, 0, - 1 / 3], buf_t = [0, 0, 0],
        buf_x = [0, 0, 0]\<rparr>
     = \<lparr>iter = 0, rho = 1, alpha = 1 / 3, omega = 1 / 2, buf_r = [0, 1 / 6, - 1 / 6],
        buf_r0 = [1, 1, 1], buf_p = [1, 0, 0], buf_v = [2, 0, 1], buf_s = [1 / 3, 0, - 1 / 3],
        buf_t = [2 / 3, - 1 / 3, - 1 / 3], buf_x = [1 / 2, 0, - 1 / 6]\<rparr>"
  by (simp add: circulant3_def update_solution_def Let_def kernel_defs small_ranges)

lemma circulant3_s_norm: "\<not> vector_norm [1 / 3, 0, - 1 / 3] 3 / 1 < 1 / 10 ^ 8"
proof -
  have "vector_norm [1 / 3, 0, - 1 / 3] 3 = sqrt (2 / 9)"
    by (simp add: kernel_defs small_ranges)
  moreover have "\<not> sqrt (2 / 9) < 1 / 10 ^ 8"
    by (rule sqrt_not_below) (simp add: power2_eq_square)
  ultimately show ?thesis by simp
qed

lemma circulant3_r_norm: "\<not> vector_norm [0, 1 / 6, - 1 / 6] 3 / 1 < 1 / 10 ^ 8"
proof -
  have "vector_norm [0, 1 / 6, - 1 / 6] 3 = sqrt (1 / 18)"
    by (simp add: kernel_defs small_ranges)
  moreover have "\<not> sqrt (1 / 18) < 1 / 10 ^ 8"
    by (rule sqrt_not_below) (simp add: power2_eq_square)
  ultimately show ?thesis by simp
qed

lemma circulant3_first_pass:
  "serial_body (sys_A circulant3) 3 (1 / 10 ^ 8) 1 (serial_init circulant3)
     = (Continue, \<lparr>iter = 0, rho = 1, alpha = 1 / 3, omega = 1 / 2, buf_r = [0, 1 / 6, - 1 / 6],
        buf_r0 = [1, 1, 1], buf_p = [1, 0, 0], buf_v = [2, 0, 1], buf_s = [1 / 3, 0, - 1 / 3],
        buf_t = [2 / 3, - 1 / 3, - 1 / 3], buf_x = [1 / 2, 0, - 1 / 6]\<rparr>)"
proof (rule full_pass_continue)
  show "\<not> \<bar>dot_product (buf_r0 (serial_init circulant3)) (buf_r (serial_init circulant3)) 3\<bar>
      < breakdown_eps"
    unfolding circulant3_init by (simp add: kernel_defs small_ranges)
  show "update_direction (sys_A circulant3) 3 1 (update_rho 3 (serial_init circulant3))
     = update_direction (sys_A circulant3) 3 (rho (serial_init circulant3))
         (update_rho 3 (serial_init circulant3))"
    by (simp add: circulant3_init)
  show "\<not> vector_norm (buf_s (update_direction (sys_A circulant3) 3 1
      (update_rho 3 (serial_init circulant3)))) 3 / 1 < 1 / 10 ^ 8"
    unfolding circulant3_direction using circulant3_s_norm by simp
  show "\<lparr>iter = 0, rho = 1, alpha = 1 / 3, omega = 1 / 2, buf_r = [0, 1 / 6, - 1 / 6],
        buf_r0 = [1, 1, 1], buf_p = [1, 0, 0], buf_v = [2, 0, 1], buf_s = [1 / 3, 0, - 1 / 3],
        buf_t = [2 / 3, - 1 / 3, - 1 / 3], buf_x = [1 / 2, 0, - 1 / 6]\<rparr>
     = update_solution (sys_A circulant3) 3 (update_direction (sys_A circulant3) 3 1
        (update_rho 3 (serial_init circulant3)))"
    unfolding circulant3_direction circulant3_solution ..
  show "\<not> vector_norm (buf_r \<lparr>iter = 0, rho = 1, alpha = 1 / 3, omega = 1 / 2,
        buf_r = [0, 1 / 6, - 1 / 6],
        buf_r0 = [1, 1, 1], buf_p = [1, 0, 0], buf_v = [2, 0, 1], buf_s = [1 / 3, 0, - 1 / 3],
        buf_t = [2 / 3, - 1 / 3, - 1 / 3], buf_x = [1 / 2, 0, - 1 / 6]\<rparr>) 3 / 1 < 1 / 10 ^ 8"
    using circulant3_r_norm by simp
  show "\<not> \<bar>omega \<lparr>iter = 0, rho = 1, alpha = 1 / 3, omega = 1 / 2,
        buf_r = [0, 1 / 6, - 1 / 6],
        buf_r0 = [1, 1, 1], buf_p = [1, 0, 0], buf_v = [2, 0, 1], buf_s = [1 / 3, 0, - 1 / 3],
        buf_t = [2 / 3, - 1 / 3, - 1 / 3], buf_x = [1 / 2, 0, - 1 / 6]\<rparr>\<bar> < breakdown_eps"
    by (simp add: breakdown_eps_def)
qed

section \<open>The solver's results\<close>

text \<open>
  C1.  When the first convergence check passes at loop index \<open>k\<close>, the solver is to
  update \<open>x\<close> by \<open>x + alpha p\<close> and to return \<open>k + 1\<close>.  The update is made, but the
  function returns \<open>k\<close>: the \<^verbatim>\<open>break\<close> of the first check leaves \<^verbatim>\<open>iter\<close> as it is
  (see \<open>first_check_returns_index\<close>), while the message printed there and the second
  check both count \<open>iter + 1\<close>.  On the \<open>1 \<times> 1\<close> identity with right-hand side \<open>1\<close> the
  first check passes at index \<open>0\<close>, \<open>x\<close> becomes the solution \<open>[1]\<close>, and both solvers
  return \<open>0\<close>.
\<close>

theorem first_check_returns_loop_index:
  "(let sys = identity1; tol = 1 / 10 ^ 8;
        st0 = serial_init sys;
        st2 = update_direction (sys_A sys) (sys_n sys) (rho st0) (update_rho (sys_n sys) st0)
    in \<not> \<bar>dot_product (buf_r0 st0) (buf_r st0) (sys_n sys)\<bar> < breakdown_eps
       \<and> vector_norm (buf_s st2) (sys_n sys) / serial_bnorm sys < tol
       \<and> bicgstab_serial sys 10 tol = (0, sys\<lparr>sys_x := [1]\<rparr>)
       \<and> bicgstab_parallel sys 10 tol 4 = (0, sys\<lparr>sys_x := [1]\<rparr>))"
proof -
  have n: "sys_n identity1 = 1"
    by (simp add: identity1_def)
  have r: "rho (serial_init identity1) = 1"
    by (simp add: identity1_init)
  have 1: "\<not> \<bar>dot_product (buf_r0 (serial_init identity1)) (buf_r (serial_init identity1))
      (sys_n identity1)\<bar> < breakdown_eps"
    unfolding identity1_init n by (simp add: kernel_defs)
  have 2: "vector_norm (buf_s (update_direction (sys_A identity1) (sys_n identity1)
      (rho (serial_init identity1)) (update_rho (sys_n identity1) (serial_init identity1))))
      (sys_n identity1) / serial_bnorm identity1 < 1 / 10 ^ 8"
    unfolding n r identity1_direction identity1_bnorm by (simp add: kernel_defs)
  have "bicgstab_serial identity1 10 (1 / 10 ^ 8) = (0, identity1\<lparr>sys_x := [1]\<rparr>)"
    using first_check_returns_index [OF serial_reaches.start _ 1 refl 2]
    unfolding n r identity1_direction
    by (simp add: serial_init_iter identity1_init kernel_defs)
  with 1 2 show ?thesis
    unfolding Let_def by (simp add: parallel_solver_serial)
qed

lemma coupled2_checks:
  "\<not> \<bar>dot_product (buf_r0 (serial_init coupled2)) (buf_r (serial_init coupled2))
      (sys_n coupled2)\<bar> < breakdown_eps"
  "\<not> vector_norm (buf_s (update_direction (sys_A coupled2) (sys_n coupled2)
      (rho (serial_init coupled2)) (update_rho (sys_n coupled2) (serial_init coupled2))))
      (sys_n coupled2) / serial_bnorm coupled2 < 1 / 10 ^ 8"
  "vector_norm (buf_r (update_solution (sys_A coupled2) (sys_n coupled2)
      (update_direction (sys_A coupled2) (sys_n coupled2)
      (rho (serial_init coupled2)) (update_rho (sys_n coupled2) (serial_init coupled2)))))
      (sys_n coupled2) / serial_bnorm coupled2 < 1 / 10 ^ 8"
proof -
  have n: "sys_n coupled2 = 2"
    by (simp add: coupled2_def)
  have r: "rho (serial_init coupled2) = 1"
    by (simp add: coupled2_init)
  show "\<not> \<bar>dot_product (buf_r0 (serial_init coupled2)) (buf_r (serial_init coupled2))
      (sys_n coupled2)\<bar> < breakdown_eps"
    unfolding coupled2_init n by (simp add: kernel_defs small_ranges)
  show "\<not> vector_norm (buf_s (update_direction (sys_A coupled2) (sys_n coupled2)
      (rho (serial_init coupled2)) (update_rho (sys_n coupled2) (serial_init coupled2))))
      (sys_n coupled2) / serial_bnorm coupled2 < 1 / 10 ^ 8"
    unfolding n r coupled2_direction coupled2_bnorm using coupled2_s_norm by simp
  show "vector_norm (buf_r (update_solution (sys_A coupled2) (sys_n coupled2)
      (update_direction (sys_A coupled2) (sys_n coupled2)
      (rho (serial_init coupled2)) (update_rho (sys_n coupled2) (serial_init coupled2)))))
      (sys_n coupled2) / serial_bnorm coupled2 < 1 / 10 ^ 8"
    unfolding n r coupled2_direction coupled2_solution coupled2_bnorm
    by (simp add: kernel_defs small_ranges)
qed

lemma coupled2_run:
  "0 < m \<Longrightarrow> bicgstab_serial coupled2 m (1 / 10 ^ 8)
     = (if 1 = m then - 1 else 1, coupled2\<lparr>sys_x := [2 / 3, - 1 / 3]\<rparr>)"
proof -
  have n: "sys_n coupled2 = 2"
    by (simp add: coupled2_def)
  have r: "rho (serial_init coupled2) = 1"
    by (simp add: coupled2_init)
  show "0 < m \<Longrightarrow> bicgstab_serial coupled2 m (1 / 10 ^ 8)
     = (if 1 = m then - 1 else 1, coupled2\<lparr>sys_x := [2 / 3, - 1 / 3]\<rparr>)"
    using second_check_returns [OF serial_reaches.start _ coupled2_checks(1) refl
        coupled2_checks(2) refl coupled2_checks(3), of m]
    unfolding n r coupled2_direction coupled2_solution
    by (simp add: serial_init_iter)
qed

text \<open>
  C2.  The solver is to return the negative sentinel exactly when \<open>max_iter\<close> passes are
  used up without a convergence check passing.  When the second check passes in the
  last pass, at loop index \<open>max_iter - 1\<close>, the function increments \<^verbatim>\<open>iter\<close> to
  \<open>max_iter\<close> before the \<^verbatim>\<open>break\<close>, and the test \<^verbatim>\<open>iter >= max_iter\<close> after the loop
  then returns \<open>-1\<close> (see \<open>second_check_returns\<close>).  On the coupled \<open>2 \<times> 2\<close> system with
  \<open>max_iter = 1\<close> the second check passes at index \<open>0\<close> with \<open>x\<close> the exact solution, and
  both solvers return \<open>-1\<close>; with \<open>max_iter = 2\<close> the same run returns \<open>1\<close>.
\<close>

theorem converged_in_last_pass_returns_sentinel:
  "(let sys = coupled2; tol = 1 / 10 ^ 8;
        st0 = serial_init sys;
        st2 = update_direction (sys_A sys) (sys_n sys) (rho st0) (update_rho (sys_n sys) st0);
        st3 = update_solution (sys_A sys) (sys_n sys) st2
    in \<not> \<bar>dot_product (buf_r0 st0) (buf_r st0) (sys_n sys)\<bar> < breakdown_eps
       \<and> \<not> vector_norm (buf_s st2) (sys_n sys) / serial_bnorm sys < tol
       \<and> vector_norm (buf_r st3) (sys_n sys) / serial_bnorm sys < tol
       \<and> bicgstab_serial sys 1 tol = (- 1, sys\<lparr>sys_x := [2 / 3, - 1 / 3]\<rparr>)
       \<and> bicgstab_parallel sys 1 tol 4 = (- 1, sys\<lparr>sys_x := [2 / 3, - 1 / 3]\<rparr>)
       \<and> bicgstab_serial sys 2 tol = (1, sys\<lparr>sys_x := [2 / 3, - 1 / 3]\<rparr>))"
  using coupled2_checks coupled2_run [of 1] coupled2_run [of 2]
  unfolding Let_def by (simp add: parallel_solver_serial)

text \<open>
  C3.  If at a loop state of a solve, at loop index \<open>k\<close>, the new \<open>rho = dot(r0, r)\<close> is
  below \<open>1e-30\<close> in absolute value, the solver leaves the loop at once and returns \<open>k\<close>,
  which is not negative and so not the sentinel, with \<open>x\<close> as that state holds it.  The
  OpenMP solver, which computes the same states, returns the same.
\<close>

theorem rho_breakdown_returns_index:
  assumes "serial_reaches (sys_A sys) (sys_n sys) max_iter tol (serial_bnorm sys)
             (serial_init sys) st"
    and "iter st < max_iter"
    and "\<bar>dot_product (buf_r0 st) (buf_r st) (sys_n sys)\<bar> < breakdown_eps"
  shows "bicgstab_serial sys max_iter tol = (iter st, sys\<lparr>sys_x := buf_x st\<rparr>)
       \<and> bicgstab_parallel sys max_iter tol num_threads = (iter st, sys\<lparr>sys_x := buf_x st\<rparr>)
       \<and> 0 \<le> iter st \<and> iter st \<noteq> - 1"
proof -
  have "serial_loop (sys_A sys) (sys_n sys) max_iter tol (serial_bnorm sys) (serial_init sys)
      = update_rho (sys_n sys) st"
    using serial_reaches_loop [OF assms(1)] serial_loop_Break [OF assms(2) rho_break [OF assms(3)]]
    by simp
  moreover have "0 \<le> iter st"
    using serial_reaches_iter [OF assms(1)] by (simp add: serial_init_iter)
  ultimately show ?thesis
    using assms(2)
    by (simp add: parallel_solver_serial bicgstab_serial_def solver_return_def update_rho_def)
qed

text \<open>The circulant system breaks down at loop index \<open>1\<close>, after one full pass, and the
  solver returns \<open>1\<close>.\<close>

theorem rho_breakdown_returns_index_witness:
  "serial_reaches (sys_A circulant3) (sys_n circulant3) 10 (1 / 10 ^ 8) (serial_bnorm circulant3)
     (serial_init circulant3)
     \<lparr>iter = 1, rho = 1, alpha = 1 / 3, omega = 1 / 2, buf_r = [0, 1 / 6, - 1 / 6],
        buf_r0 = [1, 1, 1], buf_p = [1, 0, 0], buf_v = [2, 0, 1], buf_s = [1 / 3, 0, - 1 / 3],
        buf_t = [2 / 3, - 1 / 3, - 1 / 3], buf_x = [1 / 2, 0, - 1 / 6]\<rparr>
   \<and> \<bar>dot_product [1, 1, 1] [0, 1 / 6, - 1 / 6] (sys_n circulant3)\<bar> < breakdown_eps
   \<and> bicgstab_serial circulant3 10 (1 / 10 ^ 8)
       = (1, circulant3\<lparr>sys_x := [1 / 2, 0, - 1 / 6]\<rparr>)"
proof -
  let ?st = "\<lparr>iter = 1, rho = 1, alpha = 1 / 3, omega = 1 / 2, buf_r = [0, 1 / 6, - 1 / 6],
        buf_r0 = [1, 1, 1], buf_p = [1, 0, 0], buf_v = [2, 0, 1], buf_s = [1 / 3, 0, - 1 / 3],
        buf_t = [2 / 3, - 1 / 3, - 1 / 3], buf_x = [1 / 2, 0, - 1 / 6]\<rparr>"
  have n: "sys_n circulant3 = 3"
    by (simp add: circulant3_def)
  have "serial_reaches (sys_A circulant3) 3 10 (1 / 10 ^ 8) 1 (serial_init circulant3) ?st"
    using serial_reaches.step [OF serial_reaches.start _ circulant3_first_pass, of 10]
    by (simp add: serial_init_iter)
  then have 1: "serial_reaches (sys_A circulant3) (sys_n circulant3) 10 (1 / 10 ^ 8)
      (serial_bnorm circulant3) (serial_init circulant3) ?st"
    by (simp add: n circulant3_bnorm)
  have 2: "iter ?st < 10"
    by simp
  have 3: "\<bar>dot_product (buf_r0 ?st) (buf_r ?st) (sys_n circulant3)\<bar> < breakdown_eps"
    by (simp add: n kernel_defs small_ranges)
  from rho_breakdown_returns_index [OF 1 2 3] 1 3 show ?thesis
    by simp
qed

text \<open>
  C4.  With \<open>max_iter = 0\<close> the solver returns the sentinel \<open>-1\<close> and leaves the system,
  and with it \<open>x\<close>, as it was, for every matrix, right-hand side, \<open>x\<close> and tolerance;
  the OpenMP solver does the same for every number of threads.
\<close>

theorem max_iter_zero_returns_sentinel:
  "bicgstab_serial sys 0 tol = (- 1, sys) \<and> bicgstab_parallel sys 0 tol num_threads = (- 1, sys)"
  by (simp add: parallel_solver_serial bicgstab_serial_def serial_loop_exit
      serial_init_iter serial_init_x solver_return_def)

text \<open>
  C5.  If \<open>b\<close> is the zero vector and \<open>x\<close> starts as the zero vector, then for every
  matrix, every \<open>max_iter > 0\<close> and every \<open>tol > 0\<close> the solver stops at iteration \<open>0\<close>
  (so at iteration \<open>0\<close> or \<open>1\<close>) and \<open>x\<close> is still the zero vector; the norm of \<open>b\<close> is \<open>0\<close>
  and \<open>bnorm\<close> is replaced by \<open>1\<close>.  The OpenMP solver returns the same.
\<close>

theorem zero_rhs_stops_at_once:
  assumes "sys_b sys = replicate (nat (sys_n sys)) 0"
    and "sys_x sys = replicate (nat (sys_n sys)) 0"
    and "0 < max_iter" and "0 < tol"
  shows "fst (bicgstab_serial sys max_iter tol) = 0
       \<and> fst (bicgstab_serial sys max_iter tol) \<in> {0, 1}
       \<and> sys_x (snd (bicgstab_serial sys max_iter tol)) = replicate (nat (sys_n sys)) 0
       \<and> vector_norm (sys_b sys) (sys_n sys) = 0 \<and> serial_bnorm sys = 1
       \<and> bicgstab_parallel sys max_iter tol num_threads = bicgstab_serial sys max_iter tol"
proof -
  have r: "buf_r (serial_init sys) = replicate (nat (sys_n sys)) 0"
    unfolding serial_init_r assms(1)
    using map_nth [of "replicate (nat (sys_n sys)) (0::real)"] by simp
  have "bicgstab_serial sys max_iter tol = (0, sys)"
    by (rule rho_breakdown_at_start [OF assms(3)])
      (simp add: r dot_product_zero breakdown_eps_def)
  moreover have "vector_norm (sys_b sys) (sys_n sys) = 0"
    unfolding assms(1) vector_norm_def by (simp add: dot_product_zero)
  ultimately show ?thesis
    using assms(2)
    by (simp add: serial_bnorm_def parallel_solver_serial)
qed

theorem zero_rhs_stops_at_once_witness:
  "fst (bicgstab_serial (coupled2\<lparr>sys_b := [0, 0]\<rparr>) 5 (1 / 10 ^ 8)) = 0
   \<and> sys_x (snd (bicgstab_serial (coupled2\<lparr>sys_b := [0, 0]\<rparr>) 5 (1 / 10 ^ 8))) = [0, 0]
   \<and> serial_bnorm (coupled2\<lparr>sys_b := [0, 0]\<rparr>) = 1"
proof -
  let ?sys = "coupled2\<lparr>sys_b := [0, 0]\<rparr>"
  have n: "nat (sys_n ?sys) = 2"
    by (simp add: coupled2_def)
  have b: "sys_b ?sys = replicate (nat (sys_n ?sys)) 0"
    unfolding n by (simp add: replicate_2)
  have x: "sys_x ?sys = replicate (nat (sys_n ?sys)) 0"
    unfolding n by (simp add: replicate_2 coupled2_def)
  have "(0::int) < 5" and "(0::real) < 1 / 10 ^ 8"
    by simp_all
  from zero_rhs_stops_at_once [OF b x this, of 1] show ?thesis
    unfolding n replicate_2 by blast
qed

text \<open>
  C6.  Over the reals, where the order of a reduction does not matter, the OpenMP solver
  computes what the serial solver computes: every pass through the loop body gives the
  same state and the same exit, and for every system, \<open>max_iter\<close>, \<open>tol\<close> and number of
  threads \<^verbatim>\<open>bicgstab_parallel\<close> returns the iteration count and the \<open>x\<close> that
  \<^verbatim>\<open>bicgstab_serial\<close> returns.
\<close>

theorem parallel_refines_serial:
  "parallel_body num_threads A n tol bnorm st = serial_body A n tol bnorm st
   \<and> bicgstab_parallel sys max_iter tol num_threads = bicgstab_serial sys max_iter tol"
  by (simp add: parallel_body_serial parallel_solver_serial)

text \<open>
  C7.  In both solvers the shadow residual \<open>r0\<close> is the vector of \<open>n\<close> ones, whatever \<open>r\<close>
  is, and so the \<open>rho = dot(r0, r)\<close> of the first pass through the loop is the sum of the
  components of \<open>r\<close>.
\<close>

theorem shadow_residual_all_ones:
  "buf_r0 (serial_init sys) = replicate (nat (sys_n sys)) 1
   \<and> buf_r0 (parallel_init num_threads sys) = replicate (nat (sys_n sys)) 1
   \<and> rho (snd (serial_body (sys_A sys) (sys_n sys) tol bnorm (serial_init sys)))
       = sum_list (buf_r (serial_init sys))
   \<and> rho (snd (parallel_body num_threads (sys_A sys) (sys_n sys) tol bnorm
                 (parallel_init num_threads sys)))
       = sum_list (buf_r (parallel_init num_threads sys))"
proof -
  have "length (buf_r (serial_init sys)) = nat (sys_n sys)"
    by (simp add: serial_init_r)
  then have "dot_product (buf_r0 (serial_init sys)) (buf_r (serial_init sys)) (sys_n sys)
      = sum_list (buf_r (serial_init sys))"
    unfolding serial_init_r0 by (rule dot_ones)
  then show ?thesis
    by (simp add: parallel_init_serial parallel_body_serial serial_body_rho serial_init_r0)
qed

text \<open>
  C8.  \<^verbatim>\<open>matvec_csr\<close> overwrites its output vector: cell \<open>i\<close> becomes the sum, over the
  entries of row \<open>i\<close>, of the value times the entry of \<open>x\<close> at its column index, whatever
  the output vector held.  If the matrix is the identity in CSR form and \<open>x\<close> has length
  \<open>n\<close>, the result is \<open>x\<close>.
\<close>

theorem matvec_csr_row_sums:
  assumes "length y = nat (csr_n A)"
  shows "matvec_csr A x y = map (csr_row_sum A x) [0..<nat (csr_n A)]
       \<and> (is_identity_csr A \<and> length x = nat (csr_n A) \<longrightarrow> matvec_csr A x y = x)"
proof -
  have 1: "matvec_csr A x y = map (csr_row_sum A x) [0..<nat (csr_n A)]"
    by (rule matvec_csr_overwrites [OF assms])
  have "map (csr_row_sum A x) [0..<nat (csr_n A)] = x"
    if "is_identity_csr A" "length x = nat (csr_n A)"
    using that by (intro nth_equalityI) (simp_all add: identity_row_sum)
  with 1 show ?thesis by simp
qed

theorem matvec_csr_row_sums_witness:
  "is_identity_csr \<lparr>csr_n = 2, csr_nnz = 2, csr_values = [1, 1], col_idx = [0, 1],
       row_ptr = [0, 1, 2]\<rparr>
   \<and> matvec_csr \<lparr>csr_n = 2, csr_nnz = 2, csr_values = [1, 1], col_idx = [0, 1],
       row_ptr = [0, 1, 2]\<rparr> [3, 5] [7, 7] = [3, 5]"
proof -
  let ?A = "\<lparr>csr_n = 2, csr_nnz = 2, csr_values = [1, 1], col_idx = [0, 1],
       row_ptr = [0, 1, 2]\<rparr>"
  have 1: "is_identity_csr ?A"
    by (simp add: is_identity_csr_def small_ranges)
  have 2: "length [7, 7 :: real] = nat (csr_n ?A)" "length [3, 5 :: real] = nat (csr_n ?A)"
    by simp_all
  from matvec_csr_row_sums [OF 2(1), of "[3, 5]"] 1 2(2) show ?thesis
    by blast
qed

section \<open>Faults and loops\<close>

lemma wrap_int_id: "- 2147483648 \<le> k \<Longrightarrow> k \<le> INT_MAX \<Longrightarrow> wrap_int k = k"
  by (simp add: wrap_int_def INT_MAX_def)

lemma and_then_Inr [simp]: "and_then (Inr a) f = f a"
  by (simp add: and_then_def)

lemma and_then_Inl [simp]: "and_then (Inl e) f = Inl e"
  by (simp add: and_then_def)

lemma and_then_assoc:
  "and_then (and_then r f) g = and_then r (\<lambda>a. and_then (f a) g)"
  by (cases r) simp_all

lemma for_each_append:
  "for_each (xs @ ys) body s = and_then (for_each xs body s) (for_each ys body)"
proof (induction xs arbitrary: s)
  case Nil
  then show ?case by simp
next
  case (Cons x xs)
  then show ?case by (cases "body x s") simp_all
qed

lemma for_each_map: "for_each (map g xs) body s = for_each xs (\<lambda>i. body (g i)) s"
proof (induction xs arbitrary: s)
  case Nil
  then show ?case by simp
next
  case (Cons x xs)
  then show ?case by (cases "body (g x) s") simp_all
qed

lemma and_then_done: "and_then r (for_each [] body) = r"
  by (cases r) simp_all

lemma for_each_cong:
  "(\<And>i s. i \<in> set xs \<Longrightarrow> f i s = g i s) \<Longrightarrow> for_each xs f s = for_each xs g s"
proof (induction xs arbitrary: s)
  case Nil
  then show ?case by simp
next
  case (Cons x xs)
  have "for_each xs f s' = for_each xs g s'" for s'
    using Cons by simp
  then show ?case
    using Cons.prems [of x s] by (cases "g x s") simp_all
qed

lemma for_each_snoc:
  "for_each (xs @ [x]) body s = and_then (for_each xs body s) (body x)"
  by (cases "for_each xs body s") (simp_all add: for_each_append and_then_done)

lemma nested_for_flat:
  assumes "0 < a"
  shows "for_each [0..<b] (\<lambda>i. for_each [0..<a] (\<lambda>j. f i j)) st
       = for_each [0..<b * a] (\<lambda>m. f (m div a) (m mod a)) st"
proof (induction b arbitrary: st)
  case 0
  then show ?case by simp
next
  case (Suc b)
  have split: "[0..<Suc b * a] = [0..<b * a] @ map (\<lambda>j. b * a + j) [0..<a]"
    using upt_add_eq_append [of 0 "b * a" a] by (simp add: map_add_upt add.commute)
  have row: "for_each (map (\<lambda>j. b * a + j) [0..<a]) (\<lambda>m. f (m div a) (m mod a))
      = for_each [0..<a] (\<lambda>j. f b j)"
  proof
    fix s
    show "for_each (map (\<lambda>j. b * a + j) [0..<a]) (\<lambda>m. f (m div a) (m mod a)) s
      = for_each [0..<a] (\<lambda>j. f b j) s"
      unfolding for_each_map using assms by (intro for_each_cong) simp_all
  qed
  have "for_each [0..<Suc b] (\<lambda>i. for_each [0..<a] (\<lambda>j. f i j)) st
      = and_then (for_each [0..<b] (\<lambda>i. for_each [0..<a] (\<lambda>j. f i j)) st)
          (for_each [0..<a] (\<lambda>j. f b j))"
    using for_each_snoc [of "[0..<b]" b] by simp
  then show ?case
    unfolding split for_each_append row by (simp add: Suc.IH)
qed

lemma for_upto_nested:
  assumes "0 < nx"
  shows "for_upto ny (\<lambda>i. for_upto nx (\<lambda>j. f i j)) st
       = for_each [0..<nat ny * nat nx] (\<lambda>m. f (int (m div nat nx)) (int (m mod nat nx))) st"
proof -
  have "for_upto ny (\<lambda>i. for_upto nx (\<lambda>j. f i j)) st
      = for_each [0..<nat ny] (\<lambda>i. for_each [0..<nat nx] (\<lambda>j. f (int i) (int j))) st"
    by (simp add: for_upto_def [abs_def] for_each_map)
  also have "\<dots> = for_each [0..<nat ny * nat nx]
      (\<lambda>m. f (int (m div nat nx)) (int (m mod nat nx))) st"
    by (rule nested_for_flat) (simp add: assms)
  finally show ?thesis .
qed

section \<open>The assembled matrix\<close>

lemma array_put_Some:
  "c < length xs \<Longrightarrow> array_put (Some xs) (int c) v = Inr (Some (xs[c := v]))"
  by (simp add: array_put_def)

lemma array_get_Some: "c < length xs \<Longrightarrow> array_get (Some xs) (int c) = Inr (xs ! c)"
  by (simp add: array_get_def)

lemma add_entry_room:
  assumes "c < length tv" and "c < length tc" and "int c < INT_MAX"
  shows "add_entry v d \<lparr>temp_values = Some tv, temp_col = Some tc, temp_row = tr, rhs_b = b,
           nnz_count = int c\<rparr>
       = Inr \<lparr>temp_values = Some (tv[c := v]), temp_col = Some (tc[c := d]), temp_row = tr,
              rhs_b = b, nnz_count = int (Suc c)\<rparr>"
proof -
  have "wrap_int (int c + 1) = int c + 1"
    using assms(3) by (intro wrap_int_id) simp_all
  then show ?thesis
    using assms(1,2) by (simp add: add_entry_def array_put_Some)
qed

lemma add_entries_effect:
  assumes "c + length es \<le> length tv" and "c + length es \<le> length tc"
    and "int (c + length es) \<le> INT_MAX"
  shows "\<exists>tv' tc'.
           for_each es (\<lambda>(v, d). add_entry v d)
             \<lparr>temp_values = Some tv, temp_col = Some tc, temp_row = tr, rhs_b = b,
              nnz_count = int c\<rparr>
           = Inr \<lparr>temp_values = Some tv', temp_col = Some tc', temp_row = tr, rhs_b = b,
                  nnz_count = int (c + length es)\<rparr>
         \<and> length tv' = length tv \<and> length tc' = length tc
         \<and> take (c + length es) tv' = take c tv @ map fst es
         \<and> take (c + length es) tc' = take c tc @ map snd es"
  using assms
proof (induction es arbitrary: tv tc c)
  case Nil
  then show ?case by simp
next
  case (Cons e es)
  obtain v d where e: "e = (v, d)" by (cases e)
  have c: "c < length tv" "c < length tc" "int c < INT_MAX"
    using Cons.prems by simp_all
  have room: "Suc c + length es \<le> length (tv[c := v])" "Suc c + length es \<le> length (tc[c := d])"
    "int (Suc c + length es) \<le> INT_MAX"
    using Cons.prems by simp_all
  from Cons.IH [OF room] obtain tv' tc' where
    run: "for_each es (\<lambda>(v, d). add_entry v d)
            \<lparr>temp_values = Some (tv[c := v]), temp_col = Some (tc[c := d]), temp_row = tr,
             rhs_b = b, nnz_count = int (Suc c)\<rparr>
        = Inr \<lparr>temp_values = Some tv', temp_col = Some tc', temp_row = tr, rhs_b = b,
               nnz_count = int (Suc c + length es)\<rparr>"
    and len: "length tv' = length (tv[c := v])" "length tc' = length (tc[c := d])"
    and tv': "take (Suc c + length es) tv' = take (Suc c) (tv[c := v]) @ map fst es"
    and tc': "take (Suc c + length es) tc' = take (Suc c) (tc[c := d]) @ map snd es"
    by blast
  have tv: "take (Suc c) (tv[c := v]) = take c tv @ [v]"
    using c by (simp add: take_Suc_conv_app_nth)
  have tc: "take (Suc c) (tc[c := d]) = take c tc @ [d]"
    using c by (simp add: take_Suc_conv_app_nth)
  show ?case
    using run len tv' tc' by (simp add: e add_entry_room [OF c] tv tc)
qed

lemma node_entries_length: "length (node_entries nx ny ke kn kw i j) \<le> 5"
  by (simp add: node_entries_def)

lemma entries_upto_Suc:
  "entries_upto nx ny ke kn kw (Suc k)
     = entries_upto nx ny ke kn kw k
       @ node_entries nx ny ke kn kw (int (k div nat nx)) (int (k mod nat nx))"
  by (simp add: entries_upto_def)

lemma entries_upto_length: "length (entries_upto nx ny ke kn kw k) \<le> 5 * k"
proof (induction k)
  case 0
  then show ?case by (simp add: entries_upto_def)
next
  case (Suc k)
  then show ?case
    using node_entries_length [of nx ny ke kn kw "int (k div nat nx)" "int (k mod nat nx)"]
    by (simp add: entries_upto_Suc)
qed

lemma entries_upto_mono:
  "k \<le> l \<Longrightarrow> length (entries_upto nx ny ke kn kw k) \<le> length (entries_upto nx ny ke kn kw l)"
  by (induction l) (auto simp: entries_upto_Suc le_Suc_eq)

lemma node_number_range:
  fixes i j nx ny :: int
  assumes "0 \<le> i" "i < ny" "0 \<le> j" "j < nx"
  shows "0 \<le> i * nx + j \<and> i * nx + j < nx * ny \<and> 0 \<le> i * nx \<and> i * nx < nx * ny"
proof -
  have "i * nx \<le> (ny - 1) * nx"
    using assms by (intro mult_right_mono) simp_all
  then have "i * nx + j < ny * nx"
    using assms by (simp add: algebra_simps)
  moreover have "0 \<le> i * nx"
    using assms by simp
  ultimately show ?thesis
    using assms by (simp add: mult.commute)
qed

text \<open>Inside the grid, and for a grid whose number of nodes fits an \<^verbatim>\<open>int\<close>, the node number
  is computed without wrap-around.\<close>

lemma get_node_number_grid:
  assumes "0 \<le> i" "i < ny" "0 \<le> j" "j < nx" and "nx * ny \<le> INT_MAX"
  shows "get_node_number i j nx = i * nx + j"
proof -
  from node_number_range [OF assms(1-4)]
  have r: "0 \<le> i * nx + j" "i * nx + j < nx * ny" "0 \<le> i * nx" "i * nx < nx * ny"
    by simp_all
  have "wrap_int (i * nx) = i * nx"
    using r assms(5) by (intro wrap_int_id) simp_all
  moreover have "wrap_int (i * nx + j) = i * nx + j"
    using r assms(5) by (intro wrap_int_id) simp_all
  ultimately show ?thesis
    by (simp add: get_node_number_def)
qed

lemma grid_sides:
  assumes "0 < nx" "0 < ny" and "nx * ny \<le> INT_MAX"
  shows "nx \<le> INT_MAX \<and> ny \<le> INT_MAX"
proof -
  have "nx * 1 \<le> nx * ny"
    using assms(1,2) by (intro mult_left_mono) simp_all
  moreover have "1 * ny \<le> nx * ny"
    using assms(1,2) by (intro mult_right_mono) simp_all
  ultimately show ?thesis
    using assms(3) by simp
qed

lemma assemble_node_entries:
  assumes grid: "0 \<le> i" "i < ny" "0 \<le> j" "j < nx" and fits: "nx * ny \<le> INT_MAX"
  shows "assemble_node nx ny ke kn kw i j st =
     and_then (for_each (node_entries nx ny ke kn kw i j) (\<lambda>(v, d). add_entry v d) st) (\<lambda>st.
     and_then (set_rhs (i * nx + j) (if j \<noteq> 0 \<and> i \<noteq> ny - 1 \<and> j = nx - 1 then 1 else 0) st) (\<lambda>st.
     set_row (i * nx + j + 1) (nnz_count st) st))"
proof -
  have pos: "0 < nx" "0 < ny"
    using grid by simp_all
  from grid_sides [OF pos fits] have sides: "nx \<le> INT_MAX" "ny \<le> INT_MAX"
    by simp_all
  have nx1: "wrap_int (nx - 1) = nx - 1" and ny1: "wrap_int (ny - 1) = ny - 1"
    using pos sides by (simp_all add: wrap_int_id)
  have node: "get_node_number i j nx = i * nx + j"
    by (rule get_node_number_grid [OF grid fits])
  have next_node: "wrap_int (i * nx + j + 1) = i * nx + j + 1"
    using node_number_range [OF grid] fits by (intro wrap_int_id) simp_all
  have bt: "get_boundary_type i j nx ny
      = (if j = 0 then 1 else if i = ny - 1 then 2 else if j = nx - 1 then 3
         else if i = 0 then 4 else 0)"
    by (simp add: get_boundary_type_def nx1 ny1)
  show ?thesis
  proof (cases "j = 0 \<or> i = ny - 1 \<or> j = nx - 1 \<or> i = 0")
    case True
    then have es: "node_entries nx ny ke kn kw i j = [(1, i * nx + j)]"
      by (simp add: node_entries_def)
    from True have b: "0 < get_boundary_type i j nx ny"
      by (auto simp: bt)
    have b3: "get_boundary_type i j nx ny = 3 \<longleftrightarrow> j \<noteq> 0 \<and> i \<noteq> ny - 1 \<and> j = nx - 1"
      by (auto simp: bt)
    show ?thesis
      unfolding assemble_node_def Let_def node next_node es
      using b by (cases "add_entry 1 (i * nx + j) st") (simp_all add: b3)
  next
    case False
    then have inner: "0 < j" "j < nx - 1" "0 < i" "i < ny - 1"
      using grid by simp_all
    have es: "node_entries nx ny ke kn kw i j
        = [(kw, i * nx + (j - 1)), (kn, (i - 1) * nx + j), (ke, i * nx + j),
           (kn, (i + 1) * nx + j), (kw, i * nx + (j + 1))]"
      using False by (simp add: node_entries_def)
    from False have b: "get_boundary_type i j nx ny = 0"
      by (simp add: bt)
    have steps: "wrap_int (j - 1) = j - 1" "wrap_int (i - 1) = i - 1"
      "wrap_int (i + 1) = i + 1" "wrap_int (j + 1) = j + 1"
      using inner sides by (simp_all add: wrap_int_id)
    have west: "get_node_number i (j - 1) nx = i * nx + (j - 1)"
      using inner grid by (intro get_node_number_grid [OF _ _ _ _ fits]) simp_all
    have south: "get_node_number (i - 1) j nx = (i - 1) * nx + j"
      using inner grid by (intro get_node_number_grid [OF _ _ _ _ fits]) simp_all
    have north: "get_node_number (i + 1) j nx = (i + 1) * nx + j"
      using inner grid by (intro get_node_number_grid [OF _ _ _ _ fits]) simp_all
    have east: "get_node_number i (j + 1) nx = i * nx + (j + 1)"
      using inner grid by (intro get_node_number_grid [OF _ _ _ _ fits]) simp_all
    have not_top: "\<not> (j \<noteq> 0 \<and> i \<noteq> ny - 1 \<and> j = nx - 1)"
      using inner by simp
    show ?thesis
      unfolding assemble_node_def Let_def node next_node es b nx1 ny1 steps west south north east
      using inner not_top by (simp add: and_then_assoc)
  qed
qed

lemma flat_position:
  assumes "0 < nx" and "k < nat (nx * ny)"
  shows "0 \<le> int (k div nat nx) \<and> int (k div nat nx) < ny
       \<and> 0 \<le> int (k mod nat nx) \<and> int (k mod nat nx) < nx
       \<and> int (k div nat nx) * nx + int (k mod nat nx) = int k"
proof -
  have ny: "0 < ny"
    using assms by (cases "0 < ny") (simp_all add: mult_le_0_iff not_less)
  have "k < nat ny * nat nx"
    using assms ny by (simp add: nat_mult_distrib mult.commute)
  then have "k div nat nx < nat ny"
    by (simp add: less_mult_imp_div_less)
  then have i: "int (k div nat nx) < ny"
    using ny by linarith
  have "k mod nat nx < nat nx"
    using assms(1) by simp
  then have j: "int (k mod nat nx) < nx"
    using assms(1) by linarith
  have "nx = int (nat nx)"
    using assms(1) by simp
  then have "int (k div nat nx) * nx + int (k mod nat nx)
      = int (k div nat nx * nat nx + k mod nat nx)"
    by (metis of_nat_add of_nat_mult)
  then show ?thesis
    using i j by simp
qed

lemma assemble_node_inv:
  assumes nx: "0 < nx"
    and E: "E = entries_upto nx ny ke kn kw"
    and N: "N = nat (nx * ny)"
    and fits: "5 * (nx * ny) \<le> INT_MAX"
    and inv: "asm_inv N E k st"
    and k: "k < N"
  shows "\<exists>st'. assemble_node nx ny ke kn kw (int (k div nat nx)) (int (k mod nat nx)) st = Inr st'
              \<and> asm_inv N E (Suc k) st'"
proof -
  let ?i = "int (k div nat nx)" and ?j = "int (k mod nat nx)"
  let ?es = "node_entries nx ny ke kn kw ?i ?j"
  let ?c = "length (E k)"
  from flat_position [OF nx k [unfolded N]]
  have grid: "0 \<le> ?i" "?i < ny" "0 \<le> ?j" "?j < nx" and flat: "?i * nx + ?j = int k"
    by simp_all
  have n0: "0 \<le> nx * ny"
    using k N by (cases "0 \<le> nx * ny") simp_all
  have fits1: "nx * ny \<le> INT_MAX"
    using fits n0 by simp
  have NN: "int N = nx * ny"
    using n0 by (simp add: N)
  have ESuc: "E (Suc k) = E k @ ?es"
    by (simp add: E entries_upto_Suc)
  have room: "?c + length ?es \<le> 5 * N"
    using entries_upto_length [of nx ny ke kn kw k] k
      node_entries_length [of nx ny ke kn kw ?i ?j]
    by (simp add: E)
  then have "int (?c + length ?es) \<le> 5 * int N"
    by linarith
  then have count: "int (?c + length ?es) \<le> INT_MAX"
    using fits by (simp add: NN)
  from inv obtain tv tc tr b where
    st: "st = \<lparr>temp_values = Some tv, temp_col = Some tc, temp_row = Some tr, rhs_b = Some b,
               nnz_count = int ?c\<rparr>"
    and lens: "length tv = 5 * N" "length tc = 5 * N" "length tr = N + 1" "length b = N"
    and tv: "take ?c tv = map fst (E k)"
    and tc: "take ?c tc = map snd (E k)"
    and rows: "\<forall>m\<le>k. tr ! m = int (length (E m))"
    unfolding asm_inv_def by blast
  from add_entries_effect [of ?c ?es tv tc "Some tr" "Some b"] room count lens
  obtain tv' tc' where
    run: "for_each ?es (\<lambda>(v, d). add_entry v d) st
        = Inr \<lparr>temp_values = Some tv', temp_col = Some tc', temp_row = Some tr, rhs_b = Some b,
               nnz_count = int (?c + length ?es)\<rparr>"
    and lens': "length tv' = 5 * N" "length tc' = 5 * N"
    and tv': "take (?c + length ?es) tv' = take ?c tv @ map fst ?es"
    and tc': "take (?c + length ?es) tc' = take ?c tc @ map snd ?es"
    unfolding st by auto
  define v where "v = (if ?j \<noteq> 0 \<and> ?i \<noteq> ny - 1 \<and> ?j = nx - 1 then 1 else 0 :: real)"
  define st' where "st' = \<lparr>temp_values = Some tv', temp_col = Some tc',
      temp_row = Some (tr[Suc k := int (?c + length ?es)]), rhs_b = Some (b[k := v]),
      nnz_count = int (?c + length ?es)\<rparr>"
  have put_b: "array_put (Some b) (int k) v = Inr (Some (b[k := v]))"
    using k by (simp add: array_put_Some lens)
  have put_row: "array_put (Some tr) (int k + 1) x = Inr (Some (tr[Suc k := x]))" for x
    using k array_put_Some [of "Suc k" tr x] by (simp add: lens add.commute)
  have "assemble_node nx ny ke kn kw ?i ?j st = Inr st'"
    unfolding assemble_node_entries [OF grid fits1] run flat v_def [symmetric] st'_def
    by (simp add: set_rhs_def set_row_def put_b put_row)
  moreover have "\<forall>m\<le>Suc k. tr[Suc k := int (?c + length ?es)] ! m = int (length (E m))"
    using rows k lens(3) by (auto simp: nth_list_update ESuc le_Suc_eq)
  then have "asm_inv N E (Suc k) st'"
    unfolding asm_inv_def st'_def
    using lens lens' tv' tc' by (simp add: ESuc tv tc)
  ultimately show ?thesis
    by blast
qed

lemma nodes_prefix_inv:
  assumes nx: "0 < nx"
    and E: "E = entries_upto nx ny ke kn kw"
    and N: "N = nat (nx * ny)"
    and fits: "5 * (nx * ny) \<le> INT_MAX"
    and inv: "asm_inv N E 0 st"
  shows "k \<le> N \<Longrightarrow>
    \<exists>st'. for_each [0..<k]
            (\<lambda>m. assemble_node nx ny ke kn kw (int (m div nat nx)) (int (m mod nat nx))) st
          = Inr st' \<and> asm_inv N E k st'"
proof (induction k)
  case 0
  then show ?case using inv by simp
next
  case (Suc k)
  then obtain st1 where
    run: "for_each [0..<k]
            (\<lambda>m. assemble_node nx ny ke kn kw (int (m div nat nx)) (int (m mod nat nx))) st
          = Inr st1"
    and inv1: "asm_inv N E k st1"
    by auto
  from Suc.prems have "k < N" by simp
  from assemble_node_inv [OF nx E N fits inv1 this] obtain st2 where
    "assemble_node nx ny ke kn kw (int (k div nat nx)) (int (k mod nat nx)) st1 = Inr st2"
    and "asm_inv N E (Suc k) st2"
    by blast
  then show ?case
    using run by (simp add: for_each_snoc)
qed

lemma nodes_loop_inv:
  assumes nx: "0 < nx" and ny: "0 < ny"
    and E: "E = entries_upto nx ny ke kn kw"
    and N: "N = nat (nx * ny)"
    and fits: "5 * (nx * ny) \<le> INT_MAX"
    and inv: "asm_inv N E 0 st"
  shows "\<exists>st'. for_upto ny (\<lambda>i. for_upto nx (\<lambda>j. assemble_node nx ny ke kn kw i j)) st = Inr st'
              \<and> asm_inv N E N st'"
proof -
  have NN: "N = nat ny * nat nx"
    using nx ny by (simp add: N nat_mult_distrib mult.commute)
  show ?thesis
    unfolding for_upto_nested [OF nx] NN [symmetric]
    by (rule nodes_prefix_inv [OF nx E N fits inv]) simp
qed

lemma copy_step: "m < length src \<Longrightarrow> m < length dst \<Longrightarrow>
  (take m src @ drop m dst)[m := src ! m] = take (Suc m) src @ drop (Suc m) dst"
  by (intro nth_equalityI) (auto simp: nth_append nth_list_update less_Suc_eq)

lemma copy_loop:
  assumes "length dst \<le> length src"
  shows "m \<le> length dst \<Longrightarrow>
    for_each (map int [0..<m])
      (\<lambda>i rows. and_then (array_get (Some src) i) (array_put rows i)) (Some dst)
    = Inr (Some (take m src @ drop m dst))"
proof (induction m)
  case 0
  then show ?case by simp
next
  case (Suc m)
  then have m: "m < length src" "m < length dst" "m < length (take m src @ drop m dst)"
    using assms by simp_all
  have "for_each (map int [0..<Suc m])
      (\<lambda>i rows. and_then (array_get (Some src) i) (array_put rows i)) (Some dst)
    = and_then (array_get (Some src) (int m)) (array_put (Some (take m src @ drop m dst)) (int m))"
    using Suc by (simp add: for_each_snoc)
  also have "\<dots> = Inr (Some ((take m src @ drop m dst)[m := src ! m]))"
    unfolding array_get_Some [OF m(1)] and_then_Inr by (rule array_put_Some [OF m(3)])
  finally show ?case
    by (simp only: copy_step [OF m(1,2)])
qed

lemma copy_pair_loop:
  assumes "length d1 \<le> length tv" and "length d2 = length d1" and "length d1 \<le> length tc"
  shows "m \<le> length d1 \<Longrightarrow>
    for_each (map int [0..<m])
      (\<lambda>i (vals, cols).
         and_then (array_get (Some tv) i) (\<lambda>v.
         and_then (array_put vals i v) (\<lambda>vals.
         and_then (array_get (Some tc) i) (\<lambda>c.
         and_then (array_put cols i c) (\<lambda>cols. Inr (vals, cols))))))
      (Some d1, Some d2)
    = Inr (Some (take m tv @ drop m d1), Some (take m tc @ drop m d2))"
proof (induction m)
  case 0
  then show ?case by simp
next
  case (Suc m)
  then have m: "m < length tv" "m < length d1" "m < length (take m tv @ drop m d1)"
    "m < length tc" "m < length d2" "m < length (take m tc @ drop m d2)"
    using assms by simp_all
  show ?case
    using Suc
    by (simp add: for_each_snoc array_get_Some [OF m(1)] array_get_Some [OF m(4)]
        array_put_Some [OF m(3)] array_put_Some [OF m(6)]
        copy_step [OF m(1,2)] copy_step [OF m(4,5)])
qed

lemma upto_int_upt: "[int a .. int b - 1] = map int [a..<b]"
  by (intro nth_equalityI) (simp_all add: nat_diff_distrib')

lemma nth_range_middle: "map ((!) (xs @ ys @ zs)) [length xs..<length xs + length ys] = ys"
  by (intro nth_equalityI) (simp_all add: nth_append)

lemma entries_upto_prefix:
  "k \<le> l \<Longrightarrow> \<exists>zs. entries_upto nx ny ke kn kw l = entries_upto nx ny ke kn kw k @ zs"
proof (induction l)
  case 0
  then show ?case by simp
next
  case (Suc l)
  then show ?case
    by (cases "k = Suc l") (auto simp: entries_upto_Suc le_Suc_eq)
qed

lemma node_entries_cols:
  assumes "0 \<le> i" "i < ny" "0 \<le> j" "j < nx"
    and "(v, c) \<in> set (node_entries nx ny ke kn kw i j)"
  shows "0 \<le> c \<and> c < nx * ny"
proof (cases "j = 0 \<or> i = ny - 1 \<or> j = nx - 1 \<or> i = 0")
  case True
  with assms(5) have "c = i * nx + j"
    by (simp add: node_entries_def)
  then show ?thesis using node_number_range [OF assms(1-4)] by simp
next
  case False
  then have inner: "j \<noteq> 0" "i \<noteq> ny - 1" "j \<noteq> nx - 1" "i \<noteq> 0"
    by simp_all
  from False assms(5) consider
      "c = i * nx + (j - 1)" | "c = (i - 1) * nx + j"
    | "c = i * nx + j" | "c = (i + 1) * nx + j"
    | "c = i * nx + (j + 1)"
    by (auto simp: node_entries_def)
  then show ?thesis
  proof cases
    case 1
    then show ?thesis using node_number_range [of i ny "j - 1" nx] assms inner by simp
  next
    case 2
    then show ?thesis using node_number_range [of "i - 1" ny j nx] assms inner by simp
  next
    case 3
    then show ?thesis using node_number_range [of i ny j nx] assms by simp
  next
    case 4
    then show ?thesis using node_number_range [of "i + 1" ny j nx] assms inner by simp
  next
    case 5
    then show ?thesis using node_number_range [of i ny "j + 1" nx] assms inner by simp
  qed
qed

lemma entries_upto_cols:
  assumes "0 < nx" and "k \<le> nat (nx * ny)"
    and "(v, c) \<in> set (entries_upto nx ny ke kn kw k)"
  shows "0 \<le> c \<and> c < nx * ny"
proof -
  from assms(3) obtain m where m: "m < k"
    and mem: "(v, c) \<in> set (node_entries nx ny ke kn kw (int (m div nat nx)) (int (m mod nat nx)))"
    by (auto simp: entries_upto_def)
  from m assms(2) have "m < nat (nx * ny)"
    by simp
  from flat_position [OF assms(1) this] show ?thesis
    by (intro node_entries_cols [OF _ _ _ _ mem]) simp_all
qed

lemma malloc_cells_int: "malloc_cells (int k) = Some (replicate k 0)"
  by (simp add: malloc_cells_def)

lemma rows_copy:
  assumes "length tr = N + 1" and "\<forall>m\<le>N. tr ! m = int (length (E m))"
  shows "for_upto (int N + 1)
           (\<lambda>i rows. and_then (array_get (Some tr) i) (array_put rows i))
           (Some (replicate (N + 1) 0))
       = Inr (Some (map (\<lambda>m. int (length (E m))) [0..<N + 1]))"
proof -
  have n: "nat (int N + 1) = N + 1"
    by simp
  have "for_upto (int N + 1)
           (\<lambda>i rows. and_then (array_get (Some tr) i) (array_put rows i))
           (Some (replicate (N + 1) 0))
      = Inr (Some (take (N + 1) tr @ drop (N + 1) (replicate (N + 1) 0)))"
    unfolding for_upto_def n by (rule copy_loop) (simp_all add: assms(1))
  moreover have "take (N + 1) tr = map (\<lambda>m. int (length (E m))) [0..<N + 1]"
    using assms by (intro nth_equalityI) (simp_all add: less_Suc_eq_le del: upt_Suc)
  ultimately show ?thesis
    by simp
qed

lemma entries_copy:
  assumes "length tv = 5 * N" and "length tc = 5 * N" and "c \<le> 5 * N"
  shows "for_upto (int c)
           (\<lambda>i (vals, cols).
              and_then (array_get (Some tv) i) (\<lambda>v.
              and_then (array_put vals i v) (\<lambda>vals.
              and_then (array_get (Some tc) i) (\<lambda>d.
              and_then (array_put cols i d) (\<lambda>cols. Inr (vals, cols))))))
           (Some (replicate c 0), Some (replicate c 0))
       = Inr (Some (take c tv), Some (take c tc))"
proof -
  have "for_upto (int c)
           (\<lambda>i (vals, cols).
              and_then (array_get (Some tv) i) (\<lambda>v.
              and_then (array_put vals i v) (\<lambda>vals.
              and_then (array_get (Some tc) i) (\<lambda>d.
              and_then (array_put cols i d) (\<lambda>cols. Inr (vals, cols))))))
           (Some (replicate c 0), Some (replicate c 0))
      = Inr (Some (take c tv @ drop c (replicate c 0)), Some (take c tc @ drop c (replicate c 0)))"
    unfolding for_upto_def nat_int by (rule copy_pair_loop) (simp_all add: assms)
  then show ?thesis
    by simp
qed

text \<open>
  For a grid of at least one node with \<open>5 nx ny \<le> INT_MAX\<close> the call returns, and
  the matrix it returns is the list of the entries of all nodes, with the lengths of the
  prefixes of that list as row pointers.
\<close>

lemma create_fem_system_matrix:
  assumes nx: "0 < nx" and ny: "0 < ny" and fits: "5 * (nx * ny) \<le> INT_MAX"
    and hx: "hx = 1 / real_of_int (nx - 1)" and hy: "hy = 1 / real_of_int (ny - 1)"
    and E: "E = entries_upto nx ny ((hy / hx + hx / hy) / 3) (- (hy / hx) / 6) (- (hx / hy) / 6)"
    and N: "N = nat (nx * ny)"
  shows "\<exists>b. length b = N \<and> create_fem_system nx ny
       = Inr \<lparr>sys_A = \<lparr>csr_n = nx * ny, csr_nnz = int (length (E N)),
                        csr_values = map fst (E N), col_idx = map snd (E N),
                        row_ptr = map (\<lambda>m. int (length (E m))) [0..<N + 1]\<rparr>,
               sys_b = b, sys_x = replicate N 0, sys_n = nx * ny\<rparr>"
proof -
  have n0: "0 < nx * ny"
    using nx ny by simp
  have NN: "int N = nx * ny"
    using n0 by (simp add: N)
  have fits1: "nx * ny \<le> INT_MAX"
    using fits n0 by simp
  from grid_sides [OF nx ny fits1] have sides: "nx \<le> INT_MAX" "ny \<le> INT_MAX"
    by simp_all
  have "wrap_int (nx * ny) = nx * ny"
    using n0 fits1 by (intro wrap_int_id) linarith+
  moreover have "wrap_int (5 * (nx * ny)) = 5 * (nx * ny)"
    using n0 fits by (intro wrap_int_id) linarith+
  moreover have "wrap_int (nx * ny + 1) = nx * ny + 1"
    using n0 fits by (intro wrap_int_id) linarith+
  moreover have "wrap_int (nx - 1) = nx - 1" "wrap_int (ny - 1) = ny - 1"
    using nx ny sides by (simp_all add: wrap_int_id)
  ultimately have w: "wrap_int (nx * ny) = nx * ny" "wrap_int (5 * (nx * ny)) = 5 * (nx * ny)"
    "wrap_int (nx * ny + 1) = nx * ny + 1" "wrap_int (nx - 1) = nx - 1"
    "wrap_int (ny - 1) = ny - 1"
    by simp_all
  have sizes: "nat (5 * (nx * ny)) = 5 * N" "nat (nx * ny + 1) = N + 1"
    using n0 by (simp_all add: N nat_mult_distrib nat_add_distrib)
  define st0 where "st0 = \<lparr>temp_values = Some (replicate (5 * N) (0::real)),
      temp_col = Some (replicate (5 * N) (0::int)),
      temp_row = Some ((replicate (N + 1) (0::int))[0 := 0]),
      rhs_b = Some (replicate N (0::real)), nnz_count = 0\<rparr>"
  have E0: "E 0 = []"
    by (simp add: E entries_upto_def)
  have "asm_inv N E 0 st0"
    by (simp add: asm_inv_def st0_def E0)
  from nodes_loop_inv [OF nx ny E N fits this] obtain st where
    loop: "for_upto ny (\<lambda>i. for_upto nx (\<lambda>j. assemble_node nx ny ((hy / hx + hx / hy) / 3)
        (- (hy / hx) / 6) (- (hx / hy) / 6) i j)) st0 = Inr st"
    and inv: "asm_inv N E N st"
    by blast
  from inv obtain tv tc tr b where
    st: "st = \<lparr>temp_values = Some tv, temp_col = Some tc, temp_row = Some tr, rhs_b = Some b,
               nnz_count = int (length (E N))\<rparr>"
    and lens: "length tv = 5 * N" "length tc = 5 * N" "length tr = N + 1" "length b = N"
    and tv: "take (length (E N)) tv = map fst (E N)"
    and tc: "take (length (E N)) tc = map snd (E N)"
    and rows: "\<forall>m\<le>N. tr ! m = int (length (E m))"
    unfolding asm_inv_def by blast
  have le: "length (E N) \<le> 5 * N"
    unfolding E by (rule entries_upto_length)
  have start: "set_row 0 0 \<lparr>temp_values = calloc (5 * (nx * ny)), temp_col = calloc (5 * (nx * ny)),
      temp_row = calloc (nx * ny + 1), rhs_b = calloc (nx * ny), nnz_count = 0\<rparr> = Inr st0"
    using n0 array_put_Some [of 0 "replicate (N + 1) (0::int)" 0]
    by (simp add: set_row_def calloc_def sizes st0_def N)
  have copy: "for_upto (int (length (E N)))
           (\<lambda>i (vals, cols).
              and_then (array_get (Some tv) i) (\<lambda>v.
              and_then (array_put vals i v) (\<lambda>vals.
              and_then (array_get (Some tc) i) (\<lambda>d.
              and_then (array_put cols i d) (\<lambda>cols. Inr (vals, cols))))))
           (Some (replicate (length (E N)) 0), Some (replicate (length (E N)) 0))
       = Inr (Some (map fst (E N)), Some (map snd (E N)))"
    using entries_copy [OF lens(1,2) le] by (simp add: tv tc)
  have rowcopy: "for_upto (nx * ny + 1)
           (\<lambda>i rows. and_then (array_get (Some tr) i) (array_put rows i))
           (Some (replicate (N + 1) 0))
       = Inr (Some (map (\<lambda>m. int (length (E m))) [0..<N + 1]))"
    using rows_copy [OF lens(3) rows] by (simp add: NN)
  have m2: "malloc_cells (nx * ny + 1) = Some (replicate (N + 1) (0::int))"
    using n0 by (simp add: malloc_cells_def sizes)
  have cx: "calloc (nx * ny) = Some (replicate N (0::real))"
    using n0 by (simp add: calloc_def N)
  have "create_fem_system nx ny
       = Inr \<lparr>sys_A = \<lparr>csr_n = nx * ny, csr_nnz = int (length (E N)),
                        csr_values = map fst (E N), col_idx = map snd (E N),
                        row_ptr = map (\<lambda>m. int (length (E m))) [0..<N + 1]\<rparr>,
               sys_b = b, sys_x = replicate N 0, sys_n = nx * ny\<rparr>"
    unfolding create_fem_system_def Let_def w hx [symmetric] hy [symmetric] start and_then_Inr loop
    unfolding st assembly.select_convs malloc_cells_int m2 cx copy and_then_Inr prod.case rowcopy
    by (simp add: cells_of_def del: upt_Suc)
  with lens(4) show ?thesis
    by blast
qed

lemma row_slice:
  assumes "es = xs @ ys @ zs"
  shows "map (\<lambda>q. (map fst es ! nat q, map snd es ! nat q))
           [int (length xs) .. int (length xs + length ys) - 1] = ys"
proof -
  have "map (\<lambda>q. (map fst es ! nat q, map snd es ! nat q))
           [int (length xs) .. int (length xs + length ys) - 1]
      = map (\<lambda>q. (map fst es ! q, map snd es ! q)) [length xs..<length xs + length ys]"
    unfolding upto_int_upt by (simp add: comp_def)
  also have "\<dots> = map ((!) es) [length xs..<length xs + length ys]"
  proof (rule map_cong [OF refl])
    fix q assume "q \<in> set [length xs..<length xs + length ys]"
    then have "q < length es" by (simp add: assms)
    then show "(map fst es ! q, map snd es ! q) = es ! q" by simp
  qed
  also have "\<dots> = ys"
    unfolding assms by (rule nth_range_middle)
  finally show ?thesis .
qed

lemma grid_position:
  fixes i j nx ny :: int
  assumes "0 \<le> i" "i < ny" "0 \<le> j" "j < nx"
  shows "nat (i * nx + j) < nat (nx * ny)
       \<and> int (nat (i * nx + j) div nat nx) = i
       \<and> int (nat (i * nx + j) mod nat nx) = j"
proof -
  have m: "nat (i * nx + j) = nat i * nat nx + nat j"
    using assms by (simp add: nat_add_distrib nat_mult_distrib)
  have j: "nat j < nat nx"
    using assms by simp
  have "nat (i * nx + j) < nat (nx * ny)"
    using node_number_range [OF assms] by simp
  moreover have "(nat i * nat nx + nat j) div nat nx = nat i"
    using j by simp
  moreover have "(nat i * nat nx + nat j) mod nat nx = nat j"
    using j by simp
  ultimately show ?thesis
    using assms by (simp add: m)
qed

text \<open>When the temporary value array is \<^verbatim>\<open>NULL\<close>, the first node of the loop writes through
  it.\<close>

lemma null_values_fault:
  assumes "0 < nx" and "0 < ny" and "temp_values st = None"
  shows "for_upto ny (\<lambda>i. for_upto nx (\<lambda>j. assemble_node nx ny ke kn kw i j)) st
       = Inl Null_pointer"
proof -
  have first: "assemble_node nx ny ke kn kw 0 0 st = Inl Null_pointer"
    using assms(3)
    by (simp add: assemble_node_def Let_def get_boundary_type_def add_entry_def array_put_def)
  have cols: "map int [0..<nat nx] = 0 # map int [Suc 0..<nat nx]"
    using assms(1) by (simp add: upt_conv_Cons)
  have rows: "map int [0..<nat ny] = 0 # map int [Suc 0..<nat ny]"
    using assms(2) by (simp add: upt_conv_Cons)
  show ?thesis
    unfolding for_upto_def rows for_each.simps cols first and_then_Inl ..
qed

text \<open>
  C10, as stated for every grid with \<open>nx \<ge> 2\<close> and \<open>ny \<ge> 2\<close>, fails on the grid
  \<open>20725 \<times> 20725\<close>.  It has \<open>429525625\<close> nodes, which fits an \<^verbatim>\<open>int\<close>, but
  \<open>5 * 429525625 = 2147628125\<close> does not: \<^verbatim>\<open>max_nnz\<close> wraps to \<open>-2147339171\<close>, the two
  \<^verbatim>\<open>calloc\<close> calls for the temporary value and column arrays return \<^verbatim>\<open>NULL\<close>, which the
  function does not test, and the first node writes through it.  The call produces no
  matrix.
\<close>

theorem create_fem_system_large_grid_faults:
  "create_fem_system 20725 20725 = Inl Null_pointer"
proof -
  have n: "wrap_int (20725 * 20725) = 429525625"
    by (simp add: wrap_int_def)
  have max_nnz: "wrap_int (5 * 429525625) = - 2147339171"
    by (simp add: wrap_int_def)
  have n1: "wrap_int (429525625 + 1) = 429525626"
    by (simp add: wrap_int_def)
  define tr :: "int list" where "tr = replicate (nat 429525626) 0"
  have len: "0 < length tr"
    by (simp add: tr_def)
  have row: "calloc 429525626 = Some tr"
    by (simp add: calloc_def tr_def)
  have none: "calloc (- 2147339171) = (None :: 'a::zero array)"
    by (simp add: calloc_def)
  define st :: assembly where "st = \<lparr>temp_values = None, temp_col = None,
      temp_row = Some (tr[0 := 0]), rhs_b = calloc 429525625, nnz_count = 0\<rparr>"
  have start: "set_row 0 0 \<lparr>temp_values = None, temp_col = None, temp_row = Some tr,
      rhs_b = calloc 429525625, nnz_count = 0\<rparr> = Inr st"
    using array_put_Some [OF len, of 0] by (simp add: set_row_def st_def)
  have loop: "for_upto 20725 (\<lambda>i. for_upto 20725 (\<lambda>j. assemble_node 20725 20725 ke kn kw i j)) st
      = Inl Null_pointer" for ke kn kw
    by (rule null_values_fault) (simp_all add: st_def)
  show ?thesis
    unfolding create_fem_system_def Let_def n max_nnz n1 none row start and_then_Inr loop
      and_then_Inl ..
qed

text \<open>
  C10, for the grids whose sizes fit an \<^verbatim>\<open>int\<close>.  For every grid with \<open>nx \<ge> 2\<close>,
  \<open>ny \<ge> 2\<close> and \<open>5 nx ny \<le> INT_MAX\<close> the call returns a system; its matrix has
  \<open>n = nx * ny\<close> and satisfies the CSR invariant: \<open>row_ptr[0] = 0\<close>, \<open>row_ptr\<close> does not
  decrease, \<open>row_ptr[n] = nnz\<close>, every column index lies in \<open>[0, n)\<close>; and the index
  range \<open>[row_ptr[m], row_ptr[m+1])\<close> of the row of the node at grid position \<open>(i, j)\<close>,
  \<open>m = i * nx + j\<close>, holds exactly the entries of that node.  The number of entries is at
  most \<open>5 n\<close>, the size of the temporary arrays.
\<close>

theorem create_fem_system_csr_invariant:
  assumes "2 \<le> nx" and "2 \<le> ny" and "5 * (nx * ny) \<le> INT_MAX"
  shows "\<exists>sys. create_fem_system nx ny = Inr sys
          \<and> (let A = sys_A sys;
                  hx = 1 / real_of_int (nx - 1); hy = 1 / real_of_int (ny - 1);
                  ke = (hy / hx + hx / hy) / 3; kn = - (hy / hx) / 6; kw = - (hx / hy) / 6
              in csr_invariant A \<and> csr_n A = nx * ny \<and> sys_n sys = nx * ny
                 \<and> csr_nnz A \<le> 5 * (nx * ny)
                 \<and> (\<forall>i j. 0 \<le> i \<and> i < ny \<and> 0 \<le> j \<and> j < nx \<longrightarrow>
                      csr_row A (nat (i * nx + j)) = node_entries nx ny ke kn kw i j))"
proof -
  define hx hy where "hx = 1 / real_of_int (nx - 1)" and "hy = 1 / real_of_int (ny - 1)"
  define ke kn kw where "ke = (hy / hx + hx / hy) / 3" and "kn = - (hy / hx) / 6"
    and "kw = - (hx / hy) / 6"
  define E where "E = entries_upto nx ny ke kn kw"
  define N where "N = nat (nx * ny)"
  have nx: "0 < nx" and ny: "0 < ny"
    using assms by simp_all
  have "\<exists>b. length b = N \<and> create_fem_system nx ny
       = Inr \<lparr>sys_A = \<lparr>csr_n = nx * ny, csr_nnz = int (length (E N)),
                        csr_values = map fst (E N), col_idx = map snd (E N),
                        row_ptr = map (\<lambda>m. int (length (E m))) [0..<N + 1]\<rparr>,
               sys_b = b, sys_x = replicate N 0, sys_n = nx * ny\<rparr>"
    by (rule create_fem_system_matrix [OF nx ny assms(3) hx_def hy_def])
      (simp_all add: E_def ke_def kn_def kw_def N_def)
  then obtain sys where run: "create_fem_system nx ny = Inr sys"
    and n: "sys_n sys = nx * ny"
    and sA: "sys_A sys = \<lparr>csr_n = nx * ny, csr_nnz = int (length (E N)),
        csr_values = map fst (E N), col_idx = map snd (E N),
        row_ptr = map (\<lambda>m. int (length (E m))) [0..<N + 1]\<rparr>"
    by auto
  define A where "A = sys_A sys"
  have A: "A = \<lparr>csr_n = nx * ny, csr_nnz = int (length (E N)), csr_values = map fst (E N),
          col_idx = map snd (E N), row_ptr = map (\<lambda>m. int (length (E m))) [0..<N + 1]\<rparr>"
    by (simp add: A_def sA)
  have n0: "0 \<le> nx * ny"
    using nx ny by simp
  have E0: "E 0 = []"
    by (simp add: E_def entries_upto_def)
  have rp: "row_ptr A ! m = int (length (E m))" if "m \<le> N" for m
    using that unfolding A by (simp add: less_Suc_eq_le del: upt_Suc)
  have mono: "list_all (\<lambda>i. row_ptr A ! i \<le> row_ptr A ! (i + 1)) [0..<nat (csr_n A)]"
    unfolding list_all_iff
  proof
    fix i assume "i \<in> set [0..<nat (csr_n A)]"
    then have i: "i < N" by (simp add: A N_def)
    then show "row_ptr A ! i \<le> row_ptr A ! (i + 1)"
      using rp [of i] rp [of "i + 1"] entries_upto_mono [of i "i + 1" nx ny ke kn kw]
      by (simp add: E_def)
  qed
  have cols: "list_all (\<lambda>c. 0 \<le> c \<and> c < csr_n A) (col_idx A)"
    unfolding list_all_iff
  proof
    fix c assume "c \<in> set (col_idx A)"
    then obtain v where "(v, c) \<in> set (entries_upto nx ny ke kn kw N)"
      by (auto simp: A E_def)
    from entries_upto_cols [OF nx _ this] show "0 \<le> c \<and> c < csr_n A"
      by (simp add: A N_def)
  qed
  have inv: "csr_invariant A"
    unfolding csr_invariant_def
    using mono cols rp [of 0] rp [of N] n0
    by (simp add: A N_def E0)
  have rows: "csr_row A (nat (i * nx + j)) = node_entries nx ny ke kn kw i j"
    if "0 \<le> i" "i < ny" "0 \<le> j" "j < nx" for i j
  proof -
    let ?m = "nat (i * nx + j)"
    from grid_position [OF that] have m: "?m < N" and i: "int (?m div nat nx) = i"
      and j: "int (?m mod nat nx) = j"
      by (simp_all add: N_def)
    have ES: "E (Suc ?m) = E ?m @ node_entries nx ny ke kn kw i j"
      by (simp add: E_def entries_upto_Suc i j)
    from m entries_upto_prefix [of "Suc ?m" N nx ny ke kn kw]
    obtain zs where "E N = E (Suc ?m) @ zs"
      by (auto simp: E_def)
    then have EN: "E N = E ?m @ node_entries nx ny ke kn kw i j @ zs"
      by (simp add: ES)
    have "csr_row A ?m = map (\<lambda>q. (map fst (E N) ! nat q, map snd (E N) ! nat q))
        [int (length (E ?m)) .. int (length (E ?m) + length (node_entries nx ny ke kn kw i j)) - 1]"
      unfolding csr_row_def using rp [of ?m] rp [of "?m + 1"] m
      by (simp add: ES) (simp add: A)
    also have "\<dots> = node_entries nx ny ke kn kw i j"
      by (rule row_slice [OF EN])
    finally show ?thesis .
  qed
  have "length (E N) \<le> 5 * N"
    unfolding E_def by (rule entries_upto_length)
  then have "csr_n A = nx * ny" "csr_nnz A \<le> 5 * (nx * ny)"
    using n0 by (simp_all add: A N_def)
  with inv rows n have "csr_invariant A \<and> csr_n A = nx * ny \<and> sys_n sys = nx * ny
      \<and> csr_nnz A \<le> 5 * (nx * ny)
      \<and> (\<forall>i j. 0 \<le> i \<and> i < ny \<and> 0 \<le> j \<and> j < nx \<longrightarrow>
            csr_row A (nat (i * nx + j)) = node_entries nx ny ke kn kw i j)"
    by blast
  with run show ?thesis
    unfolding Let_def A_def hx_def [symmetric] hy_def [symmetric]
      ke_def [symmetric] kn_def [symmetric] kw_def [symmetric]
    by blast
qed

lemma create_fem_system_3x3: "create_fem_system 3 3 = Inr grid3x3"
  unfolding grid3x3_def by code_simp

theorem create_fem_system_csr_invariant_witness:
  "create_fem_system 3 3 = Inr grid3x3
   \<and> csr_invariant (sys_A grid3x3) \<and> csr_n (sys_A grid3x3) = 9 \<and> sys_n grid3x3 = 9
   \<and> csr_nnz (sys_A grid3x3) \<le> 45
   \<and> csr_row (sys_A grid3x3) 4
       = [(- 1 / 6, 3), (- 1 / 6, 1), (2 / 3, 4), (- 1 / 6, 7), (- 1 / 6, 5)]"
proof -
  have "(2::int) \<le> 3" and "5 * (3 * 3) \<le> INT_MAX"
    by (simp_all add: INT_MAX_def)
  from create_fem_system_csr_invariant [OF this(1) this(1) this(2), unfolded Let_def]
  obtain sys where run: "create_fem_system 3 3 = Inr sys"
    and inv: "csr_invariant (sys_A sys)" "csr_n (sys_A sys) = 3 * 3" "sys_n sys = 3 * 3"
      "csr_nnz (sys_A sys) \<le> 5 * (3 * 3)"
    and rows: "\<forall>i j. 0 \<le> i \<and> i < 3 \<and> 0 \<le> j \<and> j < 3 \<longrightarrow>
        csr_row (sys_A sys) (nat (i * 3 + j))
        = node_entries 3 3 ((1 / real_of_int (3 - 1) / (1 / real_of_int (3 - 1))
            + 1 / real_of_int (3 - 1) / (1 / real_of_int (3 - 1))) / 3)
          (- (1 / real_of_int (3 - 1) / (1 / real_of_int (3 - 1))) / 6)
          (- (1 / real_of_int (3 - 1) / (1 / real_of_int (3 - 1))) / 6) i j"
    by blast
  from run have sys: "sys = grid3x3"
    by (simp add: create_fem_system_3x3)
  from rows [rule_format, of 1 1]
  have "csr_row (sys_A sys) 4
       = [(- 1 / 6, 3), (- 1 / 6, 1), (2 / 3, 4), (- 1 / 6, 7), (- 1 / 6, 5)]"
    by (simp add: node_entries_def)
  with run inv show ?thesis
    unfolding sys by simp
qed

section \<open>Which arrays a solve writes\<close>

lemma wr_other: "a \<noteq> dst \<Longrightarrow> cells (wr dst i v m) a = cells m a"
  by (simp add: wr_def)

lemma wr_brk: "brk (wr dst i v m) = brk m"
  by (simp add: wr_def)

lemma for_range_fold: "for_range sch body n st = fold body [0..<nat n] st"
  by (cases sch) (simp_all add: for_range_def omp_parallel_for_serial)

lemma sum_range_fold: "sum_range sch f n = fold (\<lambda>i sum. sum + f i) [0..<nat n] 0"
  by (cases sch) (simp_all add: sum_range_def omp_reduction_sum_serial)

lemma fold_other:
  "(\<And>i m. cells (body i m) a = cells m a) \<Longrightarrow> cells (fold body is m) a = cells m a"
  by (induction "is" arbitrary: m) simp_all

lemma for_range_other:
  "(\<And>i m. cells (body i m) a = cells m a) \<Longrightarrow> cells (for_range sch body n m) a = cells m a"
  unfolding for_range_fold by (rule fold_other)

lemma vector_copy_at_other:
  "a \<noteq> dst \<Longrightarrow> cells (vector_copy_at sch src dst n m) a = cells m a"
  unfolding vector_copy_at_def by (rule for_range_other) (simp add: wr_other)

lemma vector_axpy_at_other:
  "a \<noteq> y \<Longrightarrow> cells (vector_axpy_at sch c x y n m) a = cells m a"
  unfolding vector_axpy_at_def by (rule for_range_other) (simp add: wr_other)

lemma vector_axpby_at_other:
  "a \<noteq> z \<Longrightarrow> cells (vector_axpby_at sch c x d y z n m) a = cells m a"
  unfolding vector_axpby_at_def by (rule for_range_other) (simp add: wr_other)

lemma matvec_row_at_other: "a \<noteq> y \<Longrightarrow> cells (matvec_row_at A x y i m) a = cells m a"
  unfolding matvec_row_at_def
  by (subst fold_other) (simp_all add: wr_other)

lemma matvec_row_parallel_at_other:
  "a \<noteq> y \<Longrightarrow> cells (matvec_row_parallel_at A x y i m) a = cells m a"
  by (simp add: matvec_row_parallel_at_def Let_def wr_other)

lemma matvec_csr_at_other: "a \<noteq> y \<Longrightarrow> cells (matvec_csr_at sch A x y m) a = cells m a"
  by (cases sch)
    (simp_all add: matvec_csr_at_def omp_parallel_for_serial fold_other matvec_row_at_other
      matvec_row_parallel_at_other)

lemma update_direction_at_other:
  assumes "a \<noteq> p_at W" "a \<noteq> v_at W" "a \<noteq> s_at W"
  shows "cells (fr_mem (update_direction_at sch A W n rp fr)) a = cells (fr_mem fr) a"
  using assms
  by (simp add: update_direction_at_def Let_def vector_copy_at_other vector_axpby_at_other
      matvec_csr_at_other for_range_other wr_other)

lemma update_solution_at_other:
  assumes "a \<noteq> t_at W" "a \<noteq> x" "a \<noteq> r_at W"
  shows "cells (fr_mem (update_solution_at sch A W x n fr)) a = cells (fr_mem fr) a"
  using assms
  by (simp add: update_solution_at_def Let_def vector_axpy_at_other vector_axpby_at_other
      matvec_csr_at_other)

lemma solver_body_at_other:
  assumes "a \<notin> writable W x"
  shows "cells (fr_mem (snd (solver_body_at sch A W x n tol bnorm fr))) a = cells (fr_mem fr) a"
  using assms
  by (simp add: solver_body_at_def Let_def writable_def update_rho_at_def
      update_direction_at_other update_solution_at_other vector_axpy_at_other)

lemma solver_loop_at_other:
  "a \<notin> writable W x \<Longrightarrow>
   cells (fr_mem (solver_loop_at sch A W x n max_iter tol bnorm fr)) a = cells (fr_mem fr) a"
proof (induction sch A W x n max_iter tol bnorm fr rule: solver_loop_at.induct)
  case (1 sch A W x n max_iter tol bnorm fr)
  have "cells (fr_mem (snd (solver_body_at sch A W x n tol bnorm fr))) a = cells (fr_mem fr) a"
    by (rule solver_body_at_other [OF "1.prems"])
  with "1.IH" "1.prems" show ?case
    by (subst solver_loop_at.simps) (auto split: prod.splits flow.splits)
qed

lemma free_at_other: "a \<noteq> d \<Longrightarrow> cells (free_at d m) a = cells m a"
  by (simp add: free_at_def)

lemma bicgstab_at_other:
  assumes "a < brk m" and "a \<noteq> ref_x sys"
  shows "cells (snd (bicgstab_at sch sys max_iter tol m)) a = cells m a"
proof -
  have fresh: "a \<noteq> brk m" "a \<noteq> Suc (brk m)" "a \<noteq> Suc (Suc (brk m))"
    "a \<noteq> Suc (Suc (Suc (brk m)))" "a \<noteq> Suc (Suc (Suc (Suc (brk m))))"
    "a \<noteq> Suc (Suc (Suc (Suc (Suc (brk m)))))"
    using assms(1) by simp_all
  show ?thesis
    unfolding bicgstab_at_def Let_def malloc_at_def
    using fresh assms(2)
    by (simp add: free_at_other solver_loop_at_other writable_def vector_copy_at_other
        for_range_other wr_other)
qed

section \<open>The store solver computes what the list solver computes\<close>

text \<open>A loop that writes one cell of one array per pass, from the old value of the cell
  and from arrays the loop does not write.\<close>

lemma fold_wr:
  assumes "\<And>k m'. (\<forall>a. a \<noteq> dst \<longrightarrow> cells m' a = cells m a) \<Longrightarrow>
             body k m' = wr dst (ix k) (w k (cells m' dst ! ix k)) m'"
  shows "fold body ks m
       = m\<lparr>cells := (cells m)(dst := fold (\<lambda>k d. d[ix k := w k (d ! ix k)]) ks (cells m dst))\<rparr>"
  using assms
proof (induction ks arbitrary: m)
  case Nil
  then show ?case by simp
next
  case (Cons k ks)
  let ?m1 = "wr dst (ix k) (w k (cells m dst ! ix k)) m"
  have 1: "body k m = ?m1"
    by (rule Cons.prems) simp
  have "fold body (k # ks) m = fold body ks ?m1"
    by (simp add: 1)
  also have "\<dots>
      = ?m1\<lparr>cells := (cells ?m1)(dst := fold (\<lambda>k d. d[ix k := w k (d ! ix k)]) ks (cells ?m1 dst))\<rparr>"
    by (rule Cons.IH) (simp add: Cons.prems wr_def)
  also have "\<dots> = m\<lparr>cells := (cells m)(dst := fold (\<lambda>k d. d[ix k := w k (d ! ix k)])
      (k # ks) (cells m dst))\<rparr>"
    by (simp add: wr_def)
  finally show ?case .
qed

lemma dot_product_at_eq: "dot_product_at sch a b n m = dot_product (cells m a) (cells m b) n"
  by (simp add: dot_product_at_def sum_range_fold dot_product_def rd_def)

lemma vector_norm_at_eq: "vector_norm_at sch x n m = vector_norm (cells m x) n"
  by (simp add: vector_norm_at_def vector_norm_def dot_product_at_eq)

lemma vector_copy_at_eq:
  assumes "src \<noteq> dst"
  shows "vector_copy_at sch src dst n m
       = m\<lparr>cells := (cells m)(dst := vector_copy (cells m src) (cells m dst) n)\<rparr>"
  unfolding vector_copy_at_def for_range_fold vector_copy_def
  by (rule fold_wr [where ix = "\<lambda>i. i" and w = "\<lambda>i _. cells m src ! i"])
    (simp add: rd_def assms)

lemma vector_axpy_at_eq:
  assumes "x \<noteq> y"
  shows "vector_axpy_at sch c x y n m
       = m\<lparr>cells := (cells m)(y := vector_axpy c (cells m x) (cells m y) n)\<rparr>"
  unfolding vector_axpy_at_def for_range_fold vector_axpy_def
  by (rule fold_wr [where ix = "\<lambda>i. i" and w = "\<lambda>i yi. yi + c * cells m x ! i"])
    (simp add: rd_def assms)

lemma vector_axpby_at_eq:
  assumes "x \<noteq> z" "y \<noteq> z"
  shows "vector_axpby_at sch c x d y z n m
       = m\<lparr>cells := (cells m)(z := vector_axpby c (cells m x) d (cells m y) (cells m z) n)\<rparr>"
  unfolding vector_axpby_at_def for_range_fold vector_axpby_def
  by (rule fold_wr [where ix = "\<lambda>i. i" and w = "\<lambda>i _. c * cells m x ! i + d * cells m y ! i"])
    (simp add: rd_def assms)

lemma fill_ones_at_eq:
  "for_range sch (\<lambda>i m. wr dst i 1 m) n m
     = m\<lparr>cells := (cells m)(dst := fold (\<lambda>i r0. r0[i := 1]) [0..<nat n] (cells m dst))\<rparr>"
  unfolding for_range_fold
  by (rule fold_wr [where ix = "\<lambda>i. i" and w = "\<lambda>i _. 1"]) simp

lemma direction_loop_at_eq:
  assumes "r \<noteq> p" "v \<noteq> p"
  shows "for_range sch (\<lambda>i m. wr p i (rd m r i + beta * (rd m p i - om * rd m v i)) m) n m
     = m\<lparr>cells := (cells m)(p := fold (\<lambda>i p. p[i := cells m r ! i
                                              + beta * (p ! i - om * cells m v ! i)])
                                      [0..<nat n] (cells m p))\<rparr>"
  unfolding for_range_fold
  by (rule fold_wr [where ix = "\<lambda>i. i"
        and w = "\<lambda>i pi. cells m r ! i + beta * (pi - om * cells m v ! i)"])
    (simp add: rd_def assms)

lemma matvec_row_at_eq:
  assumes "x \<noteq> y" "ref_values A \<noteq> y"
  shows "matvec_row_at A x y i m = wr y i (csr_row_sum (load_matrix m A) (cells m x) i) m"
proof -
  let ?h = "\<lambda>j. cells m (ref_values A) ! nat j * cells m x ! nat (ref_col_idx A ! nat j)"
  let ?m0 = "wr y i 0 m"
  have "matvec_row_at A x y i m
      = ?m0\<lparr>cells := (cells ?m0)(y := fold (\<lambda>j d. d[i := d ! i + ?h j])
            [ref_row_ptr A ! i .. ref_row_ptr A ! (i + 1) - 1] (cells ?m0 y))\<rparr>"
    unfolding matvec_row_at_def
    by (rule fold_wr [where ix = "\<lambda>_. i" and w = "\<lambda>j yi. yi + ?h j"])
      (simp add: rd_def assms wr_def)
  also have "\<dots> = m\<lparr>cells := (cells m)(y := matvec_row (load_matrix m A) (cells m x) i (cells m y))\<rparr>"
    by (simp add: wr_def matvec_row_def load_matrix_def)
  finally show ?thesis
    by (simp add: matvec_row_eq wr_def)
qed

lemma matvec_row_parallel_at_eq:
  "matvec_row_parallel_at A x y i m = wr y i (csr_row_sum (load_matrix m A) (cells m x) i) m"
  by (simp add: matvec_row_parallel_at_def Let_def csr_row_sum_def load_matrix_def rd_def
      fold_add_sum_list)

lemma matvec_csr_at_eq:
  assumes "x \<noteq> y" "ref_values A \<noteq> y"
  shows "matvec_csr_at sch A x y m
       = m\<lparr>cells := (cells m)(y := matvec_csr (load_matrix m A) (cells m x) (cells m y))\<rparr>"
proof -
  let ?w = "\<lambda>i (_::real). csr_row_sum (load_matrix m A) (cells m x) i"
  have agree: "csr_row_sum (load_matrix m' A) (cells m' x) i
      = csr_row_sum (load_matrix m A) (cells m x) i"
    if "\<forall>a. a \<noteq> y \<longrightarrow> cells m' a = cells m a" for m' :: store and i
    using that assms by (simp add: csr_row_sum_def load_matrix_def)
  have rows: "fold body [0..<nat (ref_n A)] m
      = m\<lparr>cells := (cells m)(y := fold (\<lambda>i d. d[i := ?w i (d ! i)]) [0..<nat (ref_n A)] (cells m y))\<rparr>"
    if body: "\<And>i m'. body i m' = wr y i (csr_row_sum (load_matrix m' A) (cells m' x) i) m'"
    for body
  proof (rule fold_wr [where ix = "\<lambda>i. i" and w = ?w])
    fix k and m' :: store
    assume ag: "\<forall>a. a \<noteq> y \<longrightarrow> cells m' a = cells m a"
    show "body k m' = wr y k (csr_row_sum (load_matrix m A) (cells m x) k) m'"
      unfolding body agree [OF ag] ..
  qed
  have list: "fold (\<lambda>i d. d[i := ?w i (d ! i)]) [0..<nat (ref_n A)] (cells m y)
      = matvec_csr (load_matrix m A) (cells m x) (cells m y)"
    unfolding matvec_csr_def matvec_row_eq [abs_def] by (simp add: load_matrix_def)
  show ?thesis
  proof (cases sch)
    case Serial
    then have "matvec_csr_at sch A x y m = fold (matvec_row_at A x y) [0..<nat (ref_n A)] m"
      by (simp add: matvec_csr_at_def)
    also have "\<dots> = m\<lparr>cells := (cells m)(y := fold (\<lambda>i d. d[i := ?w i (d ! i)])
        [0..<nat (ref_n A)] (cells m y))\<rparr>"
      by (rule rows) (rule matvec_row_at_eq [OF assms])
    finally show ?thesis
      unfolding list .
  next
    case (OpenMP nt)
    then have "matvec_csr_at sch A x y m
        = fold (matvec_row_parallel_at A x y) [0..<nat (ref_n A)] m"
      by (simp add: matvec_csr_at_def omp_parallel_for_serial)
    also have "\<dots> = m\<lparr>cells := (cells m)(y := fold (\<lambda>i d. d[i := ?w i (d ! i)])
        [0..<nat (ref_n A)] (cells m y))\<rparr>"
      by (rule rows) (rule matvec_row_parallel_at_eq)
    finally show ?thesis
      unfolding list .
  qed
qed

lemma load_matrix_other:
  "ref_values A \<noteq> a \<Longrightarrow> load_matrix (m\<lparr>cells := (cells m)(a := d)\<rparr>) A = load_matrix m A"
  by (simp add: load_matrix_def)

lemma update_rho_at_abs:
  "abs_state W x (update_rho_at sch W n fr) = update_rho n (abs_state W x fr)"
  by (simp add: abs_state_def update_rho_at_def update_rho_def dot_product_at_eq)

lemma update_direction_at_abs:
  assumes "separate W x (ref_values A)"
  shows "abs_state W x (update_direction_at sch A W n rp fr)
       = update_direction (load_matrix (fr_mem fr) A) n rp (abs_state W x fr)"
proof -
  from assms have d: "r_at W \<noteq> p_at W" "v_at W \<noteq> p_at W" "p_at W \<noteq> v_at W"
    "ref_values A \<noteq> v_at W" "ref_values A \<noteq> p_at W" "r_at W \<noteq> s_at W" "v_at W \<noteq> s_at W"
    "r_at W \<noteq> v_at W" "r0_at W \<noteq> p_at W" "r0_at W \<noteq> v_at W" "r0_at W \<noteq> s_at W"
    "p_at W \<noteq> s_at W" "t_at W \<noteq> p_at W" "t_at W \<noteq> v_at W" "t_at W \<noteq> s_at W"
    "x \<noteq> p_at W" "x \<noteq> v_at W" "x \<noteq> s_at W"
    by (auto simp: separate_def)
  show ?thesis
    by (simp add: abs_state_def update_direction_at_def update_direction_def Let_def d d [symmetric]
        vector_copy_at_eq direction_loop_at_eq matvec_csr_at_eq vector_axpby_at_eq
        dot_product_at_eq load_matrix_other)
qed

lemma update_solution_at_abs:
  assumes "separate W x (ref_values A)"
  shows "abs_state W x (update_solution_at sch A W x n fr)
       = update_solution (load_matrix (fr_mem fr) A) n (abs_state W x fr)"
proof -
  from assms have d: "s_at W \<noteq> t_at W" "ref_values A \<noteq> t_at W" "p_at W \<noteq> x" "s_at W \<noteq> x"
    "s_at W \<noteq> r_at W" "t_at W \<noteq> r_at W" "t_at W \<noteq> x" "r_at W \<noteq> t_at W" "r_at W \<noteq> x"
    "r0_at W \<noteq> t_at W" "r0_at W \<noteq> x" "r0_at W \<noteq> r_at W" "p_at W \<noteq> t_at W"
    "p_at W \<noteq> r_at W" "v_at W \<noteq> t_at W" "v_at W \<noteq> x" "v_at W \<noteq> r_at W"
    "x \<noteq> t_at W" "x \<noteq> r_at W" "x \<noteq> s_at W"
    by (auto simp: separate_def)
  show ?thesis
    by (simp add: abs_state_def update_solution_at_def update_solution_def Let_def d d [symmetric]
        matvec_csr_at_eq vector_axpby_at_eq vector_axpy_at_eq dot_product_at_eq
        load_matrix_other)
qed

lemma separate_not_writable: "separate W x vals \<Longrightarrow> vals \<notin> writable W x"
  by (auto simp: separate_def writable_def)

lemma abs_state_sel:
  "iter (abs_state W x g) = fr_iter g" "rho (abs_state W x g) = fr_rho g"
  "alpha (abs_state W x g) = fr_alpha g" "omega (abs_state W x g) = fr_omega g"
  "buf_r (abs_state W x g) = cells (fr_mem g) (r_at W)"
  "buf_p (abs_state W x g) = cells (fr_mem g) (p_at W)"
  "buf_s (abs_state W x g) = cells (fr_mem g) (s_at W)"
  "buf_x (abs_state W x g) = cells (fr_mem g) x"
  by (simp_all add: abs_state_def)

lemma abs_state_axpy_x:
  assumes "separate W x vals"
  shows "abs_state W x (g\<lparr>fr_mem := vector_axpy_at sch c (p_at W) x n (fr_mem g)\<rparr>)
       = (abs_state W x g)\<lparr>buf_x := vector_axpy c (buf_p (abs_state W x g))
           (buf_x (abs_state W x g)) n\<rparr>"
proof -
  from assms have px: "p_at W \<noteq> x"
    by (auto simp: separate_def)
  show ?thesis
    using assms by (auto simp: abs_state_def vector_axpy_at_eq [OF px] separate_def)
qed

lemma abs_state_iter_update: "abs_state W x (g\<lparr>fr_iter := k\<rparr>) = (abs_state W x g)\<lparr>iter := k\<rparr>"
  by (simp add: abs_state_def)

lemma solver_body_at_abs:
  assumes "separate W x (ref_values A)"
  shows "map_prod id (abs_state W x) (solver_body_at sch A W x n tol bnorm fr)
       = serial_body (load_matrix (fr_mem fr) A) n tol bnorm (abs_state W x fr)"
proof -
  define st where "st = abs_state W x fr"
  define A0 where "A0 = load_matrix (fr_mem fr) A"
  define fr1 where "fr1 = update_rho_at sch W n fr"
  define fr2 where "fr2 = update_direction_at sch A W n (rho st) fr1"
  define fr3 where "fr3 = update_solution_at sch A W x n fr2"
  define st1 where "st1 = update_rho n st"
  define st2 where "st2 = update_direction A0 n (rho st) st1"
  define st3 where "st3 = update_solution A0 n st2"
  have m1: "fr_mem fr1 = fr_mem fr"
    by (simp add: fr1_def update_rho_at_def)
  have rho0: "rho st = fr_rho fr"
    by (simp add: st_def abs_state_sel)
  have 1: "abs_state W x fr1 = st1"
    unfolding fr1_def st1_def st_def by (rule update_rho_at_abs)
  have 2: "abs_state W x fr2 = st2"
    unfolding fr2_def st2_def A0_def m1 [symmetric] 1 [symmetric]
    by (rule update_direction_at_abs [OF assms])
  have "cells (fr_mem fr2) (ref_values A) = cells (fr_mem fr) (ref_values A)"
    unfolding fr2_def m1 [symmetric]
    using assms by (intro update_direction_at_other) (auto simp: separate_def)
  then have A2: "load_matrix (fr_mem fr2) A = A0"
    by (simp add: load_matrix_def A0_def)
  have 3: "abs_state W x fr3 = st3"
    unfolding fr3_def st3_def A2 [symmetric] 2 [symmetric]
    by (rule update_solution_at_abs [OF assms])
  have obs: "fr_rho fr1 = rho st1" "cells (fr_mem fr2) (s_at W) = buf_s st2"
    "cells (fr_mem fr3) (r_at W) = buf_r st3" "fr_omega fr3 = omega st3"
    "fr_iter fr3 = iter st3"
    by (simp_all add: 1 [symmetric] 2 [symmetric] 3 [symmetric] abs_state_sel)
  have x2: "abs_state W x (fr2\<lparr>fr_mem := vector_axpy_at sch (fr_alpha fr2) (p_at W) x n
      (fr_mem fr2)\<rparr>) = st2\<lparr>buf_x := vector_axpy (alpha st2) (buf_p st2) (buf_x st2) n\<rparr>"
    unfolding abs_state_axpy_x [OF assms] 2 by (simp add: 2 [symmetric] abs_state_sel)
  have i3: "abs_state W x (fr3\<lparr>fr_iter := fr_iter fr3 + 1\<rparr>) = st3\<lparr>iter := iter st3 + 1\<rparr>"
    by (simp add: abs_state_iter_update 3 obs)
  have "map_prod id (abs_state W x) (solver_body_at sch A W x n tol bnorm fr)
      = serial_body A0 n tol bnorm st"
    unfolding solver_body_at_def serial_body_def Let_def vector_norm_at_eq rho0 [symmetric]
    unfolding fr1_def [symmetric] st1_def [symmetric]
    unfolding fr2_def [symmetric] st2_def [symmetric]
    unfolding fr3_def [symmetric] st3_def [symmetric]
    by (simp add: obs 1 2 3 x2 abs_state_iter_update)
  then show ?thesis
    by (simp add: A0_def st_def)
qed

lemma solver_loop_at_abs:
  "separate W x (ref_values A) \<Longrightarrow>
   abs_state W x (solver_loop_at sch A W x n max_iter tol bnorm fr)
     = serial_loop (load_matrix (fr_mem fr) A) n max_iter tol bnorm (abs_state W x fr)"
proof (induction sch A W x n max_iter tol bnorm fr rule: solver_loop_at.induct)
  case (1 sch A W x n max_iter tol bnorm fr)
  let ?A0 = "load_matrix (fr_mem fr) A"
  show ?case
  proof (cases "fr_iter fr < max_iter")
    case False
    then show ?thesis
      by (subst solver_loop_at.simps, subst serial_loop.simps) (simp add: abs_state_sel)
  next
    case True
    then have it: "iter (abs_state W x fr) < max_iter"
      by (simp add: abs_state_sel)
    obtain fl fr' where b: "solver_body_at sch A W x n tol bnorm fr = (fl, fr')"
      by force
    from solver_body_at_abs [OF "1.prems", of sch n tol bnorm fr]
    have sb: "serial_body ?A0 n tol bnorm (abs_state W x fr) = (fl, abs_state W x fr')"
      by (simp add: b)
    show ?thesis
    proof (cases fl)
      case Break
      have "solver_loop_at sch A W x n max_iter tol bnorm fr = fr'"
        using True b Break by (subst solver_loop_at.simps) simp
      moreover have "serial_loop ?A0 n max_iter tol bnorm (abs_state W x fr) = abs_state W x fr'"
        using sb Break by (intro serial_loop_Break [OF it]) simp
      ultimately show ?thesis by simp
    next
      case Continue
      let ?fr'' = "fr'\<lparr>fr_iter := fr_iter fr' + 1\<rparr>"
      have "cells (fr_mem (snd (solver_body_at sch A W x n tol bnorm fr))) (ref_values A)
          = cells (fr_mem fr) (ref_values A)"
        by (rule solver_body_at_other [OF separate_not_writable [OF "1.prems"]])
      then have A': "load_matrix (fr_mem ?fr'') A = ?A0"
        by (simp add: b load_matrix_def)
      have "solver_loop_at sch A W x n max_iter tol bnorm fr
          = solver_loop_at sch A W x n max_iter tol bnorm ?fr''"
        using True b Continue by (subst solver_loop_at.simps) simp
      also have "abs_state W x \<dots>
          = serial_loop (load_matrix (fr_mem ?fr'') A) n max_iter tol bnorm (abs_state W x ?fr'')"
        using "1.IH" [OF True _ _ "1.prems"] b Continue by simp
      also have "\<dots> = serial_loop ?A0 n max_iter tol bnorm
          ((abs_state W x fr')\<lparr>iter := iter (abs_state W x fr') + 1\<rparr>)"
        unfolding A' by (simp add: abs_state_iter_update abs_state_sel)
      also have "\<dots> = serial_loop ?A0 n max_iter tol bnorm (abs_state W x fr)"
        using sb Continue by (intro serial_loop_Continue [OF it, symmetric]) simp
      finally show ?thesis .
    qed
  qed
qed

lemma below_brk_fresh:
  "a < brk m \<Longrightarrow> a \<noteq> brk m \<and> a \<noteq> Suc (brk m) \<and> a \<noteq> Suc (Suc (brk m))
     \<and> a \<noteq> Suc (Suc (Suc (brk m))) \<and> a \<noteq> Suc (Suc (Suc (Suc (brk m))))
     \<and> a \<noteq> Suc (Suc (Suc (Suc (Suc (brk m)))))"
  by simp

lemma bicgstab_at_refines:
  assumes b: "ref_b sys < brk m" and x: "ref_x sys < brk m"
    and vals: "ref_values (ref_A sys) < brk m"
    and xv: "ref_x sys \<noteq> ref_values (ref_A sys)"
  shows "fst (bicgstab_at sch sys max_iter tol m)
           = fst (bicgstab_serial (load_system m sys) max_iter tol)
       \<and> cells (snd (bicgstab_at sch sys max_iter tol m)) (ref_x sys)
           = sys_x (snd (bicgstab_serial (load_system m sys) max_iter tol))"
proof -
  define n where "n = ref_sys_n sys"
  define W where "W = \<lparr>r_at = brk m, r0_at = Suc (brk m), p_at = Suc (Suc (brk m)),
      v_at = Suc (Suc (Suc (brk m))), s_at = Suc (Suc (Suc (Suc (brk m)))),
      t_at = Suc (Suc (Suc (Suc (Suc (brk m)))))\<rparr>"
  define m6 where "m6 = m\<lparr>cells := (cells m)(brk m := malloc_vec n, Suc (brk m) := malloc_vec n,
      Suc (Suc (brk m)) := malloc_vec n, Suc (Suc (Suc (brk m))) := malloc_vec n,
      Suc (Suc (Suc (Suc (brk m)))) := malloc_vec n,
      Suc (Suc (Suc (Suc (Suc (brk m))))) := malloc_vec n),
      brk := Suc (Suc (Suc (Suc (Suc (Suc (brk m))))))\<rparr>"
  define m9 where "m9 = vector_copy_at sch (r_at W) (p_at W) n
      (for_range sch (\<lambda>i m. wr (r0_at W) i 1 m) n
        (vector_copy_at sch (ref_b sys) (r_at W) n m6))"
  define fr0 where "fr0 = \<lparr>fr_iter = 0, fr_rho = 1, fr_alpha = 1, fr_omega = 1, fr_mem = m9\<rparr>"
  define bn where "bn = (if vector_norm_at sch (ref_b sys) n m9 = 0 then 1
      else vector_norm_at sch (ref_b sys) n m9)"
  define frE where "frE = solver_loop_at sch (ref_A sys) W (ref_x sys) n max_iter tol bn fr0"
  note fb = below_brk_fresh [OF b] and fx = below_brk_fresh [OF x]
    and fv = below_brk_fresh [OF vals]
  have sep: "separate W (ref_x sys) (ref_values (ref_A sys))"
    using fx fv xv by (auto simp: separate_def W_def)
  have unfold: "bicgstab_at sch sys max_iter tol m
      = (solver_return max_iter (fr_iter frE),
         free_at (t_at W) (free_at (s_at W) (free_at (v_at W) (free_at (p_at W)
           (free_at (r0_at W) (free_at (r_at W) (fr_mem frE)))))))"
    unfolding bicgstab_at_def Let_def malloc_at_def frE_def fr0_def bn_def m9_def m6_def
      W_def n_def
    by (simp add: fun_upd_twist)
  have m9: "m9 = m6\<lparr>cells := (cells m6)
      (r_at W := vector_copy (cells m (ref_b sys)) (malloc_vec n) n,
       r0_at W := fold (\<lambda>i r0. r0[i := 1]) [0..<nat n] (malloc_vec n),
       p_at W := vector_copy (vector_copy (cells m (ref_b sys)) (malloc_vec n) n)
                   (malloc_vec n) n)\<rparr>"
    unfolding m9_def
    using fb by (simp add: vector_copy_at_eq fill_ones_at_eq W_def m6_def)
  have init: "abs_state W (ref_x sys) fr0 = serial_init (load_system m sys)"
    using fx fb
    by (simp add: abs_state_def fr0_def m9 serial_init_def Let_def load_system_def W_def m6_def
        n_def)
  have A9: "load_matrix (fr_mem fr0) (ref_A sys) = sys_A (load_system m sys)"
    using fv by (simp add: fr0_def m9 load_matrix_def load_system_def W_def m6_def)
  have bn: "bn = serial_bnorm (load_system m sys)"
    using fb
    by (simp add: bn_def vector_norm_at_eq m9 serial_bnorm_def Let_def load_system_def W_def
        m6_def n_def)
  have loop: "abs_state W (ref_x sys) frE
      = serial_loop (sys_A (load_system m sys)) (sys_n (load_system m sys)) max_iter tol
          (serial_bnorm (load_system m sys)) (serial_init (load_system m sys))"
    unfolding frE_def solver_loop_at_abs [OF sep] A9 init bn
    by (simp add: load_system_def n_def)
  have "fr_iter frE = iter (abs_state W (ref_x sys) frE)"
    "cells (fr_mem frE) (ref_x sys) = buf_x (abs_state W (ref_x sys) frE)"
    by (simp_all add: abs_state_sel)
  then show ?thesis
    unfolding unfold loop
    using fx by (simp add: bicgstab_serial_def Let_def free_at_other W_def)
qed

lemma bicgstab_at_load_system:
  assumes "ref_b sys < brk m" and "ref_x sys < brk m" and "ref_values (ref_A sys) < brk m"
    and "ref_x sys \<noteq> ref_b sys" and "ref_x sys \<noteq> ref_values (ref_A sys)"
  shows "load_system (snd (bicgstab_at sch sys max_iter tol m)) sys
       = snd (bicgstab_serial (load_system m sys) max_iter tol)"
proof -
  let ?m' = "snd (bicgstab_at sch sys max_iter tol m)"
  have "cells ?m' (ref_b sys) = cells m (ref_b sys)"
    by (rule bicgstab_at_other) (use assms in simp_all)
  moreover have "cells ?m' (ref_values (ref_A sys)) = cells m (ref_values (ref_A sys))"
    by (rule bicgstab_at_other) (use assms in simp_all)
  moreover have "cells ?m' (ref_x sys)
      = sys_x (snd (bicgstab_serial (load_system m sys) max_iter tol))"
    using bicgstab_at_refines [OF assms(1,2,3,5)] by simp
  ultimately show ?thesis
    by (simp add: load_system_def load_matrix_def bicgstab_serial_def Let_def)
qed

text \<open>
  C9.  On every exit path a solve leaves the matrix (\<open>n\<close>, \<open>nnz\<close>, values, column
  indices, row pointers) and the right-hand side \<open>b\<close> as they were; \<open>x\<close> is the only array
  of the caller that it writes.  On the store: for a system whose \<open>b\<close>, \<open>x\<close> and matrix
  values are arrays allocated before the call, with \<open>x\<close> not the same array as \<open>b\<close> or the
  values, both solvers leave every array allocated before the call other than \<open>x\<close> with
  its contents, so the matrix and \<open>b\<close> that the store holds are unchanged, and the system
  the store holds after the call is the one \<^verbatim>\<open>bicgstab_serial\<close> on lists returns: the
  system before the call with a new \<open>x\<close>.
\<close>

theorem solver_frame:
  assumes "ref_b sys < brk m" and "ref_x sys < brk m" and "ref_values (ref_A sys) < brk m"
    and "ref_x sys \<noteq> ref_b sys" and "ref_x sys \<noteq> ref_values (ref_A sys)"
    and "m' = snd (bicgstab_serial_at sys max_iter tol m)
         \<or> m' = snd (bicgstab_parallel_at sys max_iter tol num_threads m)"
  shows "load_matrix m' (ref_A sys) = load_matrix m (ref_A sys)
       \<and> cells m' (ref_b sys) = cells m (ref_b sys)
       \<and> (\<forall>a. a < brk m \<and> a \<noteq> ref_x sys \<longrightarrow> cells m' a = cells m a)
       \<and> load_system m' sys = snd (bicgstab_serial (load_system m sys) max_iter tol)
       \<and> snd (bicgstab_serial (load_system m sys) max_iter tol)
            = (load_system m sys)\<lparr>sys_x := cells m' (ref_x sys)\<rparr>"
proof -
  from assms(6) obtain sch where m': "m' = snd (bicgstab_at sch sys max_iter tol m)"
    by (auto simp: bicgstab_serial_at_def bicgstab_parallel_at_def)
  have other: "cells m' a = cells m a" if "a < brk m" "a \<noteq> ref_x sys" for a
    unfolding m' using that by (rule bicgstab_at_other)
  have sys: "load_system m' sys = snd (bicgstab_serial (load_system m sys) max_iter tol)"
    unfolding m' by (rule bicgstab_at_load_system [OF assms(1-5)])
  have "load_matrix m' (ref_A sys) = load_matrix m (ref_A sys)"
    using other [OF assms(3)] assms(5) by (simp add: load_matrix_def)
  moreover have "cells m' (ref_b sys) = cells m (ref_b sys)"
    using other [OF assms(1)] assms(4) by simp
  moreover have "snd (bicgstab_serial (load_system m sys) max_iter tol)
      = (load_system m sys)\<lparr>sys_x := cells m' (ref_x sys)\<rparr>"
    using arg_cong [OF sys, of sys_x]
    by (simp add: bicgstab_serial_def Let_def load_system_def)
  ultimately show ?thesis
    using other sys by simp
qed

lemma coupled2_load: "load_system coupled2_store coupled2_ref = coupled2"
  by (simp add: load_system_def load_matrix_def coupled2_store_def coupled2_ref_def coupled2_def)

theorem solver_frame_witness:
  "cells (snd (bicgstab_parallel_at coupled2_ref 2 (1 / 10 ^ 8) 4 coupled2_store)) 0 = [2, 1, 1, 2]
   \<and> cells (snd (bicgstab_parallel_at coupled2_ref 2 (1 / 10 ^ 8) 4 coupled2_store)) 1 = [1, 0]
   \<and> cells (snd (bicgstab_parallel_at coupled2_ref 2 (1 / 10 ^ 8) 4 coupled2_store)) 2
       = [2 / 3, - 1 / 3]"
proof -
  let ?m' = "snd (bicgstab_parallel_at coupled2_ref 2 (1 / 10 ^ 8) 4 coupled2_store)"
  have 1: "ref_b coupled2_ref < brk coupled2_store" "ref_x coupled2_ref < brk coupled2_store"
    "ref_values (ref_A coupled2_ref) < brk coupled2_store"
    "ref_x coupled2_ref \<noteq> ref_b coupled2_ref"
    "ref_x coupled2_ref \<noteq> ref_values (ref_A coupled2_ref)"
    by (simp_all add: coupled2_ref_def coupled2_store_def)
  have 2: "?m' = snd (bicgstab_serial_at coupled2_ref 2 (1 / 10 ^ 8) coupled2_store) \<or> ?m' = ?m'"
    by simp
  note fr = solver_frame [OF 1 2, unfolded coupled2_load]
  from fr have "load_matrix ?m' (ref_A coupled2_ref) = load_matrix coupled2_store (ref_A coupled2_ref)"
    and "cells ?m' (ref_b coupled2_ref) = cells coupled2_store (ref_b coupled2_ref)"
    and "snd (bicgstab_serial coupled2 2 (1 / 10 ^ 8))
          = coupled2\<lparr>sys_x := cells ?m' (ref_x coupled2_ref)\<rparr>"
    by blast+
  then show ?thesis
    using coupled2_run [of 2]
    by (simp add: load_matrix_def coupled2_ref_def coupled2_store_def coupled2_def)
qed

end
